theory Spec2Isabelle
  imports Main "HOL-Library.Multiset" "HOL-Library.Log_Nat"
begin

section \<open>Python dictionaries with insertion order\<close>

text \<open>
  The scripts keep their aggregates in \<^verbatim>\<open>dict\<close> and \<^verbatim>\<open>defaultdict\<close> objects.  A Python
  dictionary iterates in insertion order, and the ranking step of \<^verbatim>\<open>main\<close> depends on that
  order, so a dictionary is an association list with one entry per key, in insertion
  order.

  \<open>dict_upd d f k m\<close> is the statement \<^verbatim>\<open>m[k] = f(m[k])\<close> on a \<^verbatim>\<open>defaultdict\<close> whose
  default factory yields \<open>d\<close>: an existing entry is changed in place, a missing key is
  appended with the value \<open>f d\<close>.
\<close>

type_synonym ('k, 'v) dict = "('k \<times> 'v) list"

fun dict_upd :: "'v \<Rightarrow> ('v \<Rightarrow> 'v) \<Rightarrow> 'k \<Rightarrow> ('k, 'v) dict \<Rightarrow> ('k, 'v) dict" where
  "dict_upd d f k [] = [(k, f d)]"
| "dict_upd d f k ((k', w) # m) =
     (if k = k' then (k', f w) # m else (k', w) # dict_upd d f k m)"

text \<open>\<^verbatim>\<open>m[k] += n\<close> on a \<^verbatim>\<open>defaultdict(int)\<close>.\<close>

definition dict_add :: "'k \<Rightarrow> int \<Rightarrow> ('k, int) dict \<Rightarrow> ('k, int) dict" where
  "dict_add k n m = dict_upd 0 (\<lambda>v. v + n) k m"

text \<open>\<^verbatim>\<open>m.get(k, 0)\<close>: the value stored under \<open>k\<close>, and 0 for a key that is absent.\<close>

definition dict_get0 :: "('k, int) dict \<Rightarrow> 'k \<Rightarrow> int" where
  "dict_get0 m k = (case map_of m k of None \<Rightarrow> 0 | Some v \<Rightarrow> v)"

text \<open>\<^verbatim>\<open>m[k] = v\<close>, and the constructor \<^verbatim>\<open>dict(items)\<close>.\<close>

definition dict_set :: "'k \<Rightarrow> 'v \<Rightarrow> ('k, 'v) dict \<Rightarrow> ('k, 'v) dict" where
  "dict_set k v m = dict_upd v (\<lambda>_. v) k m"

definition dict_of_items :: "('k \<times> 'v) list \<Rightarrow> ('k, 'v) dict" where
  "dict_of_items items = fold (\<lambda>(k, v) m. dict_set k v m) items []"

section \<open>Strings\<close>

text \<open>
  \<^verbatim>\<open>s.split(c)\<close> for a one-character separator, \<^verbatim>\<open>sep.join(parts)\<close> and
  \<^verbatim>\<open>s.startswith(p)\<close>.  A \<open>string\<close> is the UTF-8 encoding of the Python string; the
  separator \<^verbatim>\<open>'/'\<close> is ASCII, and splitting at an ASCII byte as well as testing for a
  prefix give the same answer on the UTF-8 bytes as on the code points.
\<close>

fun str_split :: "char \<Rightarrow> string \<Rightarrow> string list" where
  "str_split c [] = [[]]"
| "str_split c (x # xs) =
     (if x = c then [] # str_split c xs
      else (case str_split c xs of
              [] \<Rightarrow> [[x]]
            | s # ss \<Rightarrow> (x # s) # ss))"

fun str_join :: "string \<Rightarrow> string list \<Rightarrow> string" where
  "str_join sep [] = []"
| "str_join sep [s] = s"
| "str_join sep (s # t # ss) = s @ sep @ str_join sep (t # ss)"

definition startswith :: "string \<Rightarrow> string \<Rightarrow> bool" where
  "startswith s p = (take (length p) s = p)"

section \<open>Prefix resolver and aggregator (all\_details\_bucket.py)\<close>

text \<open>
  An entry of the \<^verbatim>\<open>Contents\<close> list of an object listing.  \<^verbatim>\<open>obj['Key']\<close> and
  \<^verbatim>\<open>obj['Size']\<close> are read unconditionally and are always present in a listing;
  \<^verbatim>\<open>obj.get('StorageClass', 'STANDARD')\<close> allows the storage class to be absent.
\<close>

record s3_object =
  Key :: string
  Size :: int
  ObjStorageClass :: "string option"

text \<open>The value stored per prefix: \<^verbatim>\<open>{'TotalSize': 0, 'StorageClass': defaultdict(int)}\<close>.\<close>

record prefix_detail =
  TotalSize :: int
  StorageClass :: "(string, int) dict"

definition empty_detail :: prefix_detail where
  "empty_detail = \<lparr>TotalSize = 0, StorageClass = []\<rparr>"

text \<open>\<^verbatim>\<open>'/'.join(obj['Key'].split('/')[:-1]) + '/'\<close>\<close>

definition prefix_path :: "string \<Rightarrow> string" where
  "prefix_path key = str_join ''/'' (butlast (str_split CHR ''/'' key)) @ ''/''"

text \<open>One iteration of the loop of \<^verbatim>\<open>calculate_storage_class_data\<close>.\<close>

definition agg_step ::
  "s3_object \<Rightarrow> (string, int) dict \<times> (string, prefix_detail) dict
     \<Rightarrow> (string, int) dict \<times> (string, prefix_detail) dict" where
  "agg_step obj st =
     (let storage_class = (case ObjStorageClass obj of None \<Rightarrow> ''STANDARD'' | Some c \<Rightarrow> c);
          size = Size obj;
          storage_class_data = dict_add storage_class size (fst st);
          pfx = prefix_path (Key obj);
          prefix_details =
            dict_upd empty_detail (\<lambda>d. d\<lparr>TotalSize := TotalSize d + size\<rparr>) pfx (snd st);
          prefix_details =
            dict_upd empty_detail
              (\<lambda>d. d\<lparr>StorageClass := dict_add storage_class size (StorageClass d)\<rparr>)
              pfx prefix_details
      in (storage_class_data, prefix_details))"

definition calculate_storage_class_data ::
  "s3_object list \<Rightarrow> (string, int) dict \<times> (string, prefix_detail) dict" where
  "calculate_storage_class_data objects = fold agg_step objects ([], [])"

text \<open>
  The merge loop of \<^verbatim>\<open>main\<close>: for every batch of objects (the objects listed under one
  top-level prefix) the result of \<^verbatim>\<open>calculate_storage_class_data\<close> is added into
  \<^verbatim>\<open>total_storage_class_data\<close> and \<^verbatim>\<open>all_prefix_details\<close>, entry by entry.
\<close>

definition merge_global :: "(string, int) dict \<Rightarrow> (string, int) dict \<Rightarrow> (string, int) dict" where
  "merge_global storage_class_data total_data =
     fold (\<lambda>(storage_class, size) t. dict_add storage_class size t) storage_class_data total_data"

definition merge_prefix ::
  "string \<times> prefix_detail \<Rightarrow> (string, prefix_detail) dict \<Rightarrow> (string, prefix_detail) dict" where
  "merge_prefix = (\<lambda>(pfx, details) all_details.
     fold (\<lambda>(storage_class, size) a.
             dict_upd empty_detail
               (\<lambda>d. d\<lparr>StorageClass := dict_add storage_class size (StorageClass d)\<rparr>) pfx a)
       (StorageClass details)
       (dict_upd empty_detail (\<lambda>d. d\<lparr>TotalSize := TotalSize d + TotalSize details\<rparr>)
          pfx all_details))"

definition merge_batch ::
  "s3_object list \<Rightarrow> (string, int) dict \<times> (string, prefix_detail) dict
     \<Rightarrow> (string, int) dict \<times> (string, prefix_detail) dict" where
  "merge_batch objects st =
     (case calculate_storage_class_data objects of
        (storage_class_data, prefix_details) \<Rightarrow>
          (merge_global storage_class_data (fst st), fold merge_prefix prefix_details (snd st)))"

definition main_aggregate ::
  "s3_object list list \<Rightarrow> (string, int) dict \<times> (string, prefix_detail) dict" where
  "main_aggregate batches = fold merge_batch batches ([], [])"

text \<open>
  Two Python dictionaries are equal when they hold the same keys with equal values,
  whatever the insertion order.  \<open>map_of\<close> is that reading of a flat dictionary;
  \<open>prefix_view\<close> is that reading of \<^verbatim>\<open>prefix_details\<close>, whose values hold a dictionary
  themselves.
\<close>

definition detail_view :: "prefix_detail \<Rightarrow> int \<times> (string \<rightharpoonup> int)" where
  "detail_view d = (TotalSize d, map_of (StorageClass d))"

definition prefix_view ::
  "(string, prefix_detail) dict \<Rightarrow> (string \<rightharpoonup> int \<times> (string \<rightharpoonup> int))" where
  "prefix_view p = (\<lambda>k. map_option detail_view (map_of p k))"

section \<open>Ranker: the sort and the slice of \<^verbatim>\<open>main\<close>\<close>

text \<open>
  \<^verbatim>\<open>sorted(all_prefix_details.items(), key=lambda item: item[1]['TotalSize'], reverse=True)\<close>
  is a stable sort: items with equal \<^verbatim>\<open>TotalSize\<close> keep the order of the dictionary.
  \<open>sort_key\<close> is a stable insertion sort, here on the negated key.  \<open>slice_to n xs\<close> is
  \<^verbatim>\<open>xs[:n]\<close>, which counts a negative \<open>n\<close> from the end.
\<close>

definition slice_to :: "int \<Rightarrow> 'a list \<Rightarrow> 'a list" where
  "slice_to n xs = (if 0 \<le> n then take (nat n) xs else take (length xs - nat (- n)) xs)"

definition sorted_prefix_details ::
  "(string, prefix_detail) dict \<Rightarrow> (string \<times> prefix_detail) list" where
  "sorted_prefix_details all_prefix_details =
     sort_key (\<lambda>item. - TotalSize (snd item)) all_prefix_details"

definition top_prefix_details ::
  "(string, prefix_detail) dict \<Rightarrow> int \<Rightarrow> (string, prefix_detail) dict" where
  "top_prefix_details all_prefix_details top_n =
     dict_of_items (slice_to top_n (sorted_prefix_details all_prefix_details))"

section \<open>Lifecycle rules\<close>

text \<open>
  A rule of a lifecycle configuration is a dictionary in which every key may be absent;
  the fields below are the keys the scripts read.  Tag conditions are carried along and
  never read.
\<close>

record and_operator =
  and_Prefix :: "string option"
  and_Tags :: "(string \<times> string) list option"

record lifecycle_filter =
  flt_Prefix :: "string option"
  flt_Tag :: "(string \<times> string) option"
  flt_And :: "and_operator option"

record transition =
  tr_Days :: "int option"
  tr_StorageClass :: "string option"

record expiration =
  exp_Days :: "int option"
  exp_ExpiredObjectDeleteMarker :: "bool option"

record noncurrent_version_expiration =
  NoncurrentDays :: "int option"

record lifecycle_rule =
  ID :: "string option"
  Filter :: "lifecycle_filter option"
  Status :: "string option"
  Transitions :: "transition list option"
  Expiration :: "expiration option"
  NoncurrentVersionExpiration :: "noncurrent_version_expiration option"

text \<open>
  \<^verbatim>\<open>get_lifecycle_for_prefix\<close>: the loop appends a policy in three places, and in the
  branch for a policy with a \<^verbatim>\<open>Filter\<close> there is no \<^verbatim>\<open>else\<close>.
\<close>

definition get_lifecycle_for_prefix :: "string \<Rightarrow> lifecycle_rule list \<Rightarrow> lifecycle_rule list" where
  "get_lifecycle_for_prefix pfx lifecycle_policies =
     fold (\<lambda>policy applicable_policies.
             (case Filter policy of
                Some flt \<Rightarrow>
                  if (case flt_Prefix flt of Some p \<Rightarrow> startswith pfx p | None \<Rightarrow> False)
                  then applicable_policies @ [policy]
                  else if (case flt_And flt of
                             Some a \<Rightarrow> (case and_Prefix a of
                                          Some p \<Rightarrow> startswith pfx p
                                        | None \<Rightarrow> False)
                           | None \<Rightarrow> False)
                  then applicable_policies @ [policy]
                  else applicable_policies
              | None \<Rightarrow> applicable_policies @ [policy]))
       lifecycle_policies []"

text \<open>The three conditions under which the loop appends a policy, as a predicate.\<close>

definition rule_applies :: "string \<Rightarrow> lifecycle_rule \<Rightarrow> bool" where
  "rule_applies pfx policy =
     (case Filter policy of
        None \<Rightarrow> True
      | Some flt \<Rightarrow>
          (\<exists>p. flt_Prefix flt = Some p \<and> startswith pfx p) \<or>
          (\<exists>a p. flt_And flt = Some a \<and> and_Prefix a = Some p \<and> startswith pfx p))"

subsection \<open>The lifecycle summaries\<close>

text \<open>
  A cell of a summary row holds a string or a number (\<^verbatim>\<open>'N/A'\<close> where the key is absent).
  \<^verbatim>\<open>summarize_lifecycle_rules\<close> (all\_details\_bucket.py) builds one dictionary per rule and
  overwrites its two transition cells in the loop over the transitions;
  \<^verbatim>\<open>write_lifecycle_details_to_excel\<close> (lifecycle\_rules.py) builds one row per transition.
\<close>

datatype cell = Str string | Num int

record summary_row =
  Bucket :: string
  row_ID :: cell
  row_Prefix :: cell
  row_Status :: cell
  Transition_Days :: cell
  Storage_Class :: cell
  Expiration_Days :: cell
  Delete_Marker :: cell

definition get_str :: "string option \<Rightarrow> cell" where
  "get_str v = (case v of None \<Rightarrow> Str ''N/A'' | Some s \<Rightarrow> Str s)"

definition get_int :: "int option \<Rightarrow> cell" where
  "get_int v = (case v of None \<Rightarrow> Str ''N/A'' | Some n \<Rightarrow> Num n)"

definition filter_prefix_cell :: "lifecycle_rule \<Rightarrow> cell" where
  "filter_prefix_cell rule = (case Filter rule of None \<Rightarrow> Str ''N/A'' | Some flt \<Rightarrow> get_str (flt_Prefix flt))"

definition summarize_rule :: "string \<Rightarrow> lifecycle_rule \<Rightarrow> summary_row" where
  "summarize_rule bucket_name rule =
     (let rule_summary =
            \<lparr>Bucket = bucket_name, row_ID = get_str (ID rule), row_Prefix = filter_prefix_cell rule,
             row_Status = get_str (Status rule), Transition_Days = Str ''N/A'',
             Storage_Class = Str ''N/A'', Expiration_Days = Str ''N/A'', Delete_Marker = Str ''No''\<rparr>;
          rule_summary =
            (case Transitions rule of
               None \<Rightarrow> rule_summary
             | Some transitions \<Rightarrow>
                 fold (\<lambda>transition r. r\<lparr>Transition_Days := get_int (tr_Days transition),
                                         Storage_Class := get_str (tr_StorageClass transition)\<rparr>)
                   transitions rule_summary);
          rule_summary =
            (case Expiration rule of
               None \<Rightarrow> rule_summary
             | Some e \<Rightarrow>
                 (let r = rule_summary\<lparr>Expiration_Days := get_int (exp_Days e)\<rparr>
                  in if (case exp_ExpiredObjectDeleteMarker e of None \<Rightarrow> False | Some b \<Rightarrow> b)
                     then r\<lparr>Delete_Marker := Str ''Yes''\<rparr> else r))
      in rule_summary)"

definition summarize_lifecycle_rules :: "string \<Rightarrow> lifecycle_rule list \<Rightarrow> summary_row list" where
  "summarize_lifecycle_rules bucket_name lifecycle_rules =
     fold (\<lambda>rule summary. summary @ [summarize_rule bucket_name rule]) lifecycle_rules []"

text \<open>
  lifecycle\_rules.py: \<^verbatim>\<open>parse_lifecycle_rule\<close>, the rows that
  \<^verbatim>\<open>write_lifecycle_details_to_excel\<close> builds for one rule (\<open>rule_rows\<close>), and its loop over
  the buckets and their rules.
\<close>

definition parse_lifecycle_rule :: "lifecycle_rule \<Rightarrow> (cell \<times> cell) list \<times> cell \<times> cell" where
  "parse_lifecycle_rule rule =
     (let transitions = (case Transitions rule of None \<Rightarrow> [] | Some ts \<Rightarrow> ts);
          transition_details =
            fold (\<lambda>transition td. td @ [(get_int (tr_Days transition), get_str (tr_StorageClass transition))])
              transitions [];
          expiration_days = (case Expiration rule of None \<Rightarrow> Str ''N/A'' | Some e \<Rightarrow> get_int (exp_Days e));
          delete_marker_days =
            (case NoncurrentVersionExpiration rule of None \<Rightarrow> Str ''N/A''
             | Some n \<Rightarrow> get_int (NoncurrentDays n))
      in (transition_details, expiration_days, delete_marker_days))"

definition rule_rows :: "string \<Rightarrow> lifecycle_rule \<Rightarrow> summary_row list" where
  "rule_rows bucket_name rule =
     (case parse_lifecycle_rule rule of
        (transition_details, expiration_days, delete_marker_days) \<Rightarrow>
          if transition_details = [] then
            [\<lparr>Bucket = bucket_name, row_ID = get_str (ID rule), row_Prefix = filter_prefix_cell rule,
              row_Status = get_str (Status rule), Transition_Days = Str ''N/A'',
              Storage_Class = Str ''N/A'', Expiration_Days = expiration_days,
              Delete_Marker = delete_marker_days\<rparr>]
          else
            fold (\<lambda>transition rows. rows @
                    [\<lparr>Bucket = bucket_name, row_ID = get_str (ID rule),
                      row_Prefix = filter_prefix_cell rule, row_Status = get_str (Status rule),
                      Transition_Days = fst transition, Storage_Class = snd transition,
                      Expiration_Days = expiration_days, Delete_Marker = delete_marker_days\<rparr>])
              transition_details [])"

definition lifecycle_details_rows :: "(string, lifecycle_rule list) dict \<Rightarrow> summary_row list" where
  "lifecycle_details_rows bucket_details =
     fold (\<lambda>(bucket_name, rules) rows. fold (\<lambda>rule rows. rows @ rule_rows bucket_name rule) rules rows)
       bucket_details []"

section \<open>Python floats\<close>

text \<open>
  A Python float is an IEEE-754 binary64 number.  A finite float is represented by the
  rational number it denotes (so \<^verbatim>\<open>0.0\<close> and \<^verbatim>\<open>-0.0\<close> are one value, as they are for
  \<^verbatim>\<open>==\<close>); the infinities and NaN are values of their own.  An arithmetic operation
  computes the exact result and rounds it to the nearest double, ties to even.

  \<open>ilog2 q\<close> is the binary exponent of a positive rational: \<open>2 ^ ilog2 q \<le> q < 2 ^ (ilog2 q + 1)\<close>
  (lemma \<open>ilog2_bounds\<close>).  \<open>round_to p emin emax\<close> rounds to \<open>p\<close> significant bits with a
  spacing of at least \<open>2 ^ emin\<close>, and overflows to an infinity when the rounded value
  reaches \<open>2 ^ emax\<close>; a double has 53 bits, spacing \<open>2 ^ -1074\<close> at least, and values
  below \<open>2 ^ 1024\<close>.
\<close>

datatype pyfloat = Fin rat | PInf | NInf | NaN

definition ilog2 :: "rat \<Rightarrow> int" where
  "ilog2 q = (if 1 \<le> q then bitlen \<lfloor>q\<rfloor> - 1 else - bitlen (\<lceil>1 / q\<rceil> - 1))"

definition round_half_even :: "rat \<Rightarrow> int" where
  "round_half_even r =
     (let f = \<lfloor>r\<rfloor>; d = r - of_int f
      in if d < 1 / 2 then f else if 1 / 2 < d then f + 1 else if even f then f else f + 1)"

definition round_to :: "int \<Rightarrow> int \<Rightarrow> int \<Rightarrow> rat \<Rightarrow> pyfloat" where
  "round_to p emin emax q =
     (if q = 0 then Fin 0
      else let e = max (ilog2 \<bar>q\<bar> - (p - 1)) emin;
               r = of_int (round_half_even (q / 2 powi e)) * 2 powi e
           in if 2 powi emax \<le> r then PInf else if r \<le> - (2 powi emax) then NInf else Fin r)"

definition round_double :: "rat \<Rightarrow> pyfloat" where
  "round_double q = round_to 53 (- 1074) 1024 q"

text \<open>
  The exceptions the scripts can raise in the functions modelled here.
\<close>

datatype py_error = IndexError | ValueError | OverflowError | ZeroDivisionError

text \<open>
  \<open>nearest_double\<close>: the value of a float literal of the source, and the conversion of a
  C integer to a double (both within the range of doubles).  \<open>int_to_float\<close>: the
  conversion of a Python integer, which raises \<^verbatim>\<open>OverflowError\<close> beyond that range.
  \<open>int_truediv\<close>: \<^verbatim>\<open>a / b\<close> on two integers, the correctly rounded quotient, with
  \<^verbatim>\<open>OverflowError: integer division result too large for a float\<close>.
\<close>

definition nearest_double :: "rat \<Rightarrow> rat" where
  "nearest_double q = (case round_double q of Fin r \<Rightarrow> r | PInf \<Rightarrow> 0 | NInf \<Rightarrow> 0 | NaN \<Rightarrow> 0)"

definition int_to_float :: "int \<Rightarrow> py_error + rat" where
  "int_to_float n =
     (case round_double (of_int n) of
        Fin r \<Rightarrow> Inr r
      | PInf \<Rightarrow> Inl OverflowError
      | NInf \<Rightarrow> Inl OverflowError
      | NaN \<Rightarrow> Inl OverflowError)"

definition int_truediv :: "int \<Rightarrow> int \<Rightarrow> py_error + rat" where
  "int_truediv a b =
     (if b = 0 then Inl ZeroDivisionError
      else case round_double (of_int a / of_int b) of
             Fin r \<Rightarrow> Inr r
           | PInf \<Rightarrow> Inl OverflowError
           | NInf \<Rightarrow> Inl OverflowError
           | NaN \<Rightarrow> Inl OverflowError)"

text \<open>
  Multiplication, addition and division of floats.  \<open>float_div\<close> is the IEEE division
  for a divisor other than zero; Python's \<^verbatim>\<open>a / b\<close> on floats, \<open>float_truediv\<close>, raises
  \<^verbatim>\<open>ZeroDivisionError\<close> for a zero divisor and lets an overflow become an infinity.
\<close>

definition float_neg :: "pyfloat \<Rightarrow> pyfloat" where
  "float_neg x = (case x of Fin q \<Rightarrow> Fin (- q) | PInf \<Rightarrow> NInf | NInf \<Rightarrow> PInf | NaN \<Rightarrow> NaN)"

fun float_mul :: "pyfloat \<Rightarrow> pyfloat \<Rightarrow> pyfloat" where
  "float_mul (Fin x) (Fin y) = round_double (x * y)"
| "float_mul NaN _ = NaN"
| "float_mul _ NaN = NaN"
| "float_mul (Fin x) y = (if x = 0 then NaN else if 0 < x then y else float_neg y)"
| "float_mul x (Fin y) = (if y = 0 then NaN else if 0 < y then x else float_neg x)"
| "float_mul PInf y = y"
| "float_mul NInf y = float_neg y"




text \<open>
  \<^verbatim>\<open>round(x, 2)\<close>: the exact value of \<open>x\<close> is rounded to two decimals, ties to even, and the
  decimal is converted back to the nearest double (\<^verbatim>\<open>OverflowError\<close> if that conversion
  overflows); infinities and NaN are returned as they are.
\<close>

definition py_round2 :: "pyfloat \<Rightarrow> py_error + pyfloat" where
  "py_round2 x =
     (case x of
        Fin q \<Rightarrow>
          (case round_double (of_int (round_half_even (q * 100)) / 100) of
             Fin r \<Rightarrow> Inr (Fin r)
           | PInf \<Rightarrow> Inl OverflowError
           | NInf \<Rightarrow> Inl OverflowError
           | NaN \<Rightarrow> Inl OverflowError)
      | PInf \<Rightarrow> Inr PInf
      | NInf \<Rightarrow> Inr NInf
      | NaN \<Rightarrow> Inr NaN)"

section \<open>Cost calculator\<close>

text \<open>
  The prices are float literals.  \<^verbatim>\<open>STORAGE_CLASS_PRICING.get(storage_class, 0)\<close> is the
  integer 0 for a class that is not in the table, and \<^verbatim>\<open>0 * x\<close> is the float zero.
  \<open>class_cost\<close> is the body of the loop of \<^verbatim>\<open>calculate_cost\<close>:
  \<^verbatim>\<open>round(cost_per_gb * (size / (1024**3)), 2)\<close>.
\<close>

definition STORAGE_CLASS_PRICING :: "(string, rat) dict" where
  "STORAGE_CLASS_PRICING =
     [(''STANDARD'', nearest_double (23 / 1000)),
      (''INTELLIGENT_TIERING'', nearest_double (23 / 1000)),
      (''STANDARD_IA'', nearest_double (125 / 10000)),
      (''ONEZONE_IA'', nearest_double (1 / 100)),
      (''GLACIER'', nearest_double (4 / 1000)),
      (''DEEP_ARCHIVE'', nearest_double (99 / 100000))]"

definition cost_per_gb :: "string \<Rightarrow> rat" where
  "cost_per_gb storage_class =
     (case map_of STORAGE_CLASS_PRICING storage_class of None \<Rightarrow> 0 | Some p \<Rightarrow> p)"

definition class_cost :: "string \<Rightarrow> int \<Rightarrow> py_error + pyfloat" where
  "class_cost storage_class sz =
     (case int_truediv sz (1024 ^ 3) of
        Inl err \<Rightarrow> Inl err
      | Inr gb \<Rightarrow> py_round2 (float_mul (Fin (cost_per_gb storage_class)) (Fin gb)))"

definition calculate_cost :: "(string, int) dict \<Rightarrow> py_error + (string, pyfloat) dict" where
  "calculate_cost storage_class_data =
     fold (\<lambda>(storage_class, size) acc.
             case acc of
               Inl err \<Rightarrow> Inl err
             | Inr storage_class_cost \<Rightarrow>
                 (case class_cost storage_class size of
                    Inl err \<Rightarrow> Inl err
                  | Inr cost \<Rightarrow> Inr (dict_set storage_class cost storage_class_cost)))
       storage_class_data (Inr [])"

section \<open>Size formatter\<close>








text \<open>
  \<open>and_then\<close> passes the first exception on, as the statements of a function body do.
\<close>

definition and_then :: "'e + 'a \<Rightarrow> ('a \<Rightarrow> 'e + 'b) \<Rightarrow> 'e + 'b" where
  "and_then r f = (case r of Inl err \<Rightarrow> Inl err | Inr x \<Rightarrow> f x)"


section \<open>Example inputs\<close>

text \<open>The three objects of the end-to-end scenario of the specification.\<close>

definition scenario_objects :: "s3_object list" where
  "scenario_objects =
     [\<lparr>Key = ''a/1.txt'', Size = 100, ObjStorageClass = Some ''STANDARD''\<rparr>,
      \<lparr>Key = ''a/2.txt'', Size = 924, ObjStorageClass = Some ''GLACIER''\<rparr>,
      \<lparr>Key = ''b/1.txt'', Size = 1024, ObjStorageClass = Some ''STANDARD''\<rparr>]"

text \<open>A batching of the scenario's objects, in another order and with an empty batch.\<close>

definition scenario_batches :: "s3_object list list" where
  "scenario_batches =
     [[\<lparr>Key = ''b/1.txt'', Size = 1024, ObjStorageClass = Some ''STANDARD''\<rparr>,
       \<lparr>Key = ''a/2.txt'', Size = 924, ObjStorageClass = Some ''GLACIER''\<rparr>],
      [],
      [\<lparr>Key = ''a/1.txt'', Size = 100, ObjStorageClass = Some ''STANDARD''\<rparr>]]"

text \<open>
  A rule whose \<^verbatim>\<open>Filter\<close> is the empty dictionary (the form in which a rule for the whole
  bucket is returned when it was created with an empty filter element).
\<close>

definition empty_filter_rule :: lifecycle_rule where
  "empty_filter_rule =
     \<lparr>ID = Some ''expire-all'',
      Filter = Some \<lparr>flt_Prefix = None, flt_Tag = None, flt_And = None\<rparr>,
      Status = Some ''Enabled'', Transitions = None,
      Expiration = Some \<lparr>exp_Days = Some 365, exp_ExpiredObjectDeleteMarker = None\<rparr>,
      NoncurrentVersionExpiration = None\<rparr>"

text \<open>A rule with no \<^verbatim>\<open>Filter\<close>, and a rule for a tag alone.\<close>

definition bucket_wide_rule :: lifecycle_rule where
  "bucket_wide_rule =
     \<lparr>ID = Some ''all'', Filter = None, Status = Some ''Enabled'', Transitions = None,
      Expiration = None, NoncurrentVersionExpiration = None\<rparr>"

definition tag_only_rule :: lifecycle_rule where
  "tag_only_rule =
     \<lparr>ID = Some ''tagged'',
      Filter = Some \<lparr>flt_Prefix = None, flt_Tag = Some (''tier'', ''cold''), flt_And = None\<rparr>,
      Status = Some ''Enabled'', Transitions = None, Expiration = None,
      NoncurrentVersionExpiration = None\<rparr>"

text \<open>A rule with two transitions.\<close>

definition two_transition_rule :: lifecycle_rule where
  "two_transition_rule =
     \<lparr>ID = Some ''tiering'', Filter = Some \<lparr>flt_Prefix = Some ''logs/'', flt_Tag = None, flt_And = None\<rparr>,
      Status = Some ''Enabled'',
      Transitions = Some [\<lparr>tr_Days = Some 30, tr_StorageClass = Some ''STANDARD_IA''\<rparr>,
                          \<lparr>tr_Days = Some 90, tr_StorageClass = Some ''GLACIER''\<rparr>],
      Expiration = Some \<lparr>exp_Days = Some 365, exp_ExpiredObjectDeleteMarker = None\<rparr>,
      NoncurrentVersionExpiration = None\<rparr>"

text \<open>
  Byte counts for a class of the pricing table and for a class that is not in it.
\<close>

definition cost_example :: "(string, int) dict" where
  "cost_example = [(''STANDARD'', 5 * 2 ^ 30), (''UNKNOWN'', 2 ^ 40)]"

section \<open>Vocabulary of the proofs\<close>

text \<open>
  Read as mappings, the two aggregates are sums of one contribution per object: absent
  keys act as the neutral element, values under the same key are added.  The sum does
  not depend on the order of the objects, which is what batching independence needs.
  \<open>agg_inv\<close> and \<open>dict_wf\<close> are the invariants of the aggregation loop.
\<close>

type_synonym agg_view = "(string \<rightharpoonup> int) \<times> (string \<rightharpoonup> int \<times> (string \<rightharpoonup> int))"

fun oplus :: "int option \<Rightarrow> int option \<Rightarrow> int option" where
  "oplus None b = b"
| "oplus a None = a"
| "oplus (Some x) (Some y) = Some (x + y)"

definition madd :: "('k \<rightharpoonup> int) \<Rightarrow> ('k \<rightharpoonup> int) \<Rightarrow> ('k \<rightharpoonup> int)" where
  "madd m1 m2 = (\<lambda>c. oplus (m1 c) (m2 c))"

fun dplus ::
  "(int \<times> ('k \<rightharpoonup> int)) option \<Rightarrow> (int \<times> ('k \<rightharpoonup> int)) option
     \<Rightarrow> (int \<times> ('k \<rightharpoonup> int)) option" where
  "dplus None b = b"
| "dplus a None = a"
| "dplus (Some (t1, m1)) (Some (t2, m2)) = Some (t1 + t2, madd m1 m2)"

definition padd ::
  "('p \<rightharpoonup> int \<times> ('k \<rightharpoonup> int)) \<Rightarrow> ('p \<rightharpoonup> int \<times> ('k \<rightharpoonup> int))
     \<Rightarrow> ('p \<rightharpoonup> int \<times> ('k \<rightharpoonup> int))" where
  "padd p1 p2 = (\<lambda>k. dplus (p1 k) (p2 k))"

definition obj_class :: "s3_object \<Rightarrow> string" where
  "obj_class obj = (case ObjStorageClass obj of None \<Rightarrow> ''STANDARD'' | Some c \<Rightarrow> c)"

definition astep :: "s3_object \<Rightarrow> agg_view \<Rightarrow> agg_view" where
  "astep obj v = (madd (fst v) [obj_class obj \<mapsto> Size obj],
                  padd (snd v) [prefix_path (Key obj) \<mapsto> (Size obj, [obj_class obj \<mapsto> Size obj])])"

definition state_view ::
  "(string, int) dict \<times> (string, prefix_detail) dict \<Rightarrow> agg_view" where
  "state_view st = (map_of (fst st), prefix_view (snd st))"

definition vadd :: "agg_view \<Rightarrow> agg_view \<Rightarrow> agg_view" where
  "vadd v w = (madd (fst v) (fst w), padd (snd v) (snd w))"

definition view1 :: "s3_object \<Rightarrow> agg_view" where
  "view1 obj = ([obj_class obj \<mapsto> Size obj], [prefix_path (Key obj) \<mapsto> (Size obj, [obj_class obj \<mapsto> Size obj])])"

definition dict_wf :: "(string, int) dict \<times> (string, prefix_detail) dict \<Rightarrow> bool" where
  "dict_wf st \<longleftrightarrow> distinct (map fst (fst st)) \<and> distinct (map fst (snd st)) \<and>
     (\<forall>(k, d) \<in> set (snd st). distinct (map fst (StorageClass d)))"

definition agg_inv :: "(string, int) dict \<times> (string, prefix_detail) dict \<Rightarrow> bool" where
  "agg_inv st \<longleftrightarrow>
     (\<forall>(pre, d) \<in> set (snd st). TotalSize d = sum_list (map snd (StorageClass d))) \<and>
     (\<forall>c. dict_get0 (fst st) c = (\<Sum>(pre, d)\<leftarrow>snd st. dict_get0 (StorageClass d) c)) \<and>
     (\<Sum>(pre, d)\<leftarrow>snd st. TotalSize d) = sum_list (map snd (fst st))"

text \<open>The cost of one class where \<open>class_cost\<close> returns.\<close>

definition the_cost :: "string \<Rightarrow> int \<Rightarrow> pyfloat" where
  "the_cost c n = (case class_cost c n of Inr x \<Rightarrow> x | Inl err \<Rightarrow> Fin 0)"


section \<open>Dictionaries and strings\<close>

lemma map_of_dict_upd:
  "map_of (dict_upd d f k m) =
     (map_of m)(k \<mapsto> f (case map_of m k of None \<Rightarrow> d | Some w \<Rightarrow> w))"
  by (induction m) (auto simp: fun_eq_iff)

lemma keys_dict_upd: "fst ` set (dict_upd d f k m) = insert k (fst ` set m)"
  by (simp add: dom_map_of_conv_image_fst[symmetric] map_of_dict_upd)

lemma distinct_dict_upd: "distinct (map fst m) \<Longrightarrow> distinct (map fst (dict_upd d f k m))"
  by (induction m) (auto simp: keys_dict_upd)

lemma distinct_dict_add: "distinct (map fst m) \<Longrightarrow> distinct (map fst (dict_add k n m))"
  by (simp add: dict_add_def distinct_dict_upd)

lemma dict_upd_twice: "dict_upd d g k (dict_upd d f k m) = dict_upd d (\<lambda>w. g (f w)) k m"
  by (induction m) auto

lemma sum_dict_upd:
  fixes h :: "'v \<Rightarrow> int"
  assumes "h d = 0" and "\<And>w. h (f w) = h w + n"
  shows "(\<Sum>(k', w)\<leftarrow>dict_upd d f k m. h w) = (\<Sum>(k', w)\<leftarrow>m. h w) + n"
  using assms by (induction m) auto

lemma set_dict_upd:
  assumes "(k', v') \<in> set (dict_upd d f k m)"
  shows "(k', v') \<in> set m \<or> (k' = k \<and> (v' = f d \<or> (\<exists>w. (k, w) \<in> set m \<and> v' = f w)))"
  using assms by (induction m) (auto split: if_splits)

lemma dict_get0_add: "dict_get0 (dict_add k n m) c = dict_get0 m c + (if c = k then n else 0)"
  by (auto simp: dict_get0_def dict_add_def map_of_dict_upd split: option.splits)

lemma sum_dict_add: "sum_list (map snd (dict_add k n m)) = sum_list (map snd m) + n"
  unfolding dict_add_def by (induction m) auto

lemma str_split_ne: "str_split c s \<noteq> []"
  by (induction s) (auto split: list.splits)

lemma str_join_Cons_head: "str_join sep ((x # a) # ss) = x # str_join sep (a # ss)"
  by (cases ss) auto

lemma str_join_split: "str_join [c] (str_split c s) = s"
proof (induction s)
  case Nil
  then show ?case by simp
next
  case (Cons x xs)
  then show ?case
    using str_split_ne[of c xs]
    by (cases "str_split c xs") (auto simp: str_join_Cons_head)
qed

lemma str_split_no_sep: "t \<in> set (str_split c s) \<Longrightarrow> c \<notin> set t"
  by (induction s arbitrary: t) (auto split: if_splits list.splits)

lemma str_split_length: "length (str_split c s) = Suc (count_list s c)"
  by (induction s) (auto split: list.splits simp: str_split_ne)

lemma str_split_nosep: "c \<notin> set s \<Longrightarrow> str_split c s = [s]"
  by (induction s) auto

lemma str_join_snoc: "ss \<noteq> [] \<Longrightarrow> str_join sep (ss @ [t]) = str_join sep ss @ sep @ t"
  by (induction sep ss rule: str_join.induct) auto

lemma str_split_sep_len: "c \<in> set s \<Longrightarrow> 2 \<le> length (str_split c s)"
  by (induction s) (auto split: list.splits simp: str_split_ne)

lemma prefix_path_decomp:
  assumes "CHR ''/'' \<in> set k"
  shows "k = prefix_path k @ last (str_split CHR ''/'' k)"
proof -
  let ?ss = "str_split CHR ''/'' k"
  have ne: "?ss \<noteq> []" by (rule str_split_ne)
  have "2 \<le> length ?ss" using assms by (rule str_split_sep_len)
  then have bne: "butlast ?ss \<noteq> []" by (cases ?ss rule: rev_cases) auto
  have "k = str_join ''/'' (butlast ?ss @ [last ?ss])"
    using ne by (simp add: str_join_split)
  also have "\<dots> = str_join ''/'' (butlast ?ss) @ ''/'' @ last ?ss"
    using bne by (rule str_join_snoc)
  finally show ?thesis by (simp add: prefix_path_def)
qed

lemma prefix_path_root: "CHR ''/'' \<notin> set k \<Longrightarrow> prefix_path k = ''/''"
  by (simp add: prefix_path_def str_split_nosep)

section \<open>The aggregator\<close>

lemma agg_step_alt:
  "agg_step obj (g, p) =
     (let sc = (case ObjStorageClass obj of None \<Rightarrow> ''STANDARD'' | Some c \<Rightarrow> c) in
      (dict_add sc (Size obj) g,
       dict_upd empty_detail
         (\<lambda>d. d\<lparr>TotalSize := TotalSize d + Size obj,
                StorageClass := dict_add sc (Size obj) (StorageClass d)\<rparr>)
         (prefix_path (Key obj)) p))"
  by (simp add: agg_step_def Let_def dict_upd_twice)

lemma oplus_comm: "oplus a b = oplus b a"
  by (cases a; cases b) auto

lemma oplus_assoc: "oplus (oplus a b) c = oplus a (oplus b c)"
  by (cases a; cases b; cases c) auto

lemma oplus_None2 [simp]: "oplus a None = a"
  by (cases a) auto

lemma madd_comm: "madd a b = madd b a"
  by (simp add: madd_def fun_eq_iff oplus_comm)

lemma madd_assoc: "madd (madd a b) c = madd a (madd b c)"
  by (simp add: madd_def fun_eq_iff oplus_assoc)

lemma madd_empty [simp]: "madd a Map.empty = a" "madd Map.empty a = a"
  by (simp_all add: madd_def fun_eq_iff)

lemma dplus_comm: "dplus a b = dplus b a"
  by (cases a; cases b) (auto simp: madd_comm)

lemma dplus_assoc: "dplus (dplus a b) c = dplus a (dplus b c)"
  by (cases a; cases b; cases c) (auto simp: madd_assoc)

lemma dplus_None2 [simp]: "dplus a None = a"
  by (cases a) auto

lemma padd_comm: "padd a b = padd b a"
  by (simp add: padd_def fun_eq_iff dplus_comm)

lemma padd_assoc: "padd (padd a b) c = padd a (padd b c)"
  by (simp add: padd_def fun_eq_iff dplus_assoc)

lemma padd_empty [simp]: "padd a Map.empty = a" "padd Map.empty a = a"
  by (simp_all add: padd_def fun_eq_iff)

lemma map_of_dict_add: "map_of (dict_add c n g) = madd (map_of g) [c \<mapsto> n]"
  by (auto simp: dict_add_def map_of_dict_upd madd_def fun_eq_iff split: option.splits)

lemma prefix_view_dict_upd:
  "prefix_view (dict_upd d f k p) =
     (prefix_view p)(k \<mapsto> detail_view (f (case map_of p k of None \<Rightarrow> d | Some w \<Rightarrow> w)))"
  by (auto simp: prefix_view_def map_of_dict_upd fun_eq_iff)

lemma prefix_view_agg:
  "prefix_view (dict_upd empty_detail
       (\<lambda>d. d\<lparr>TotalSize := TotalSize d + n, StorageClass := dict_add c n (StorageClass d)\<rparr>) k p)
   = padd (prefix_view p) [k \<mapsto> (n, [c \<mapsto> n])]"
  unfolding prefix_view_dict_upd
  by (auto simp: padd_def fun_eq_iff prefix_view_def detail_view_def empty_detail_def
      map_of_dict_add split: option.splits)

lemma state_view_agg_step: "state_view (agg_step obj st) = astep obj (state_view st)"
proof -
  obtain g p where st: "st = (g, p)" by (cases st)
  show ?thesis
    unfolding st agg_step_alt astep_def state_view_def Let_def obj_class_def[symmetric]
    by (simp add: map_of_dict_add prefix_view_agg)
qed

lemma state_view_fold_agg: "state_view (fold agg_step objs st) = fold astep objs (state_view st)"
  by (induction objs arbitrary: st) (simp_all add: state_view_agg_step)

lemma vadd_assoc: "vadd (vadd a b) c = vadd a (vadd b c)"
  by (simp add: vadd_def madd_assoc padd_assoc)

lemma vadd_comm: "vadd a b = vadd b a"
  by (simp add: vadd_def madd_comm padd_comm)

lemma astep_vadd: "astep obj v = vadd v (view1 obj)"
  by (simp add: astep_def vadd_def view1_def)

lemma astep_commute: "astep a \<circ> astep b = astep b \<circ> astep a"
  by (auto simp: fun_eq_iff astep_vadd vadd_assoc vadd_comm[of "view1 a"])

lemma fold_astep_vadd: "fold astep objs (vadd v w) = vadd v (fold astep objs w)"
  by (induction objs arbitrary: w) (simp_all add: astep_vadd vadd_assoc)

lemma fold_astep_mset: "mset xs = mset ys \<Longrightarrow> fold astep xs = fold astep ys"
  by (rule fold_multiset_equiv) (simp_all add: astep_commute)

lemma dict_wf_step: "dict_wf st \<Longrightarrow> dict_wf (agg_step obj st)"
proof -
  assume wf: "dict_wf st"
  obtain g p where st: "st = (g, p)" by (cases st)
  show ?thesis
    using wf unfolding st agg_step_alt dict_wf_def Let_def
    by (auto simp: distinct_dict_add distinct_dict_upd empty_detail_def dest!: set_dict_upd)
qed

lemma dict_wf_fold: "dict_wf st \<Longrightarrow> dict_wf (fold agg_step objs st)"
  by (induction objs arbitrary: st) (simp_all add: dict_wf_step)

lemma dict_wf_calc: "dict_wf (calculate_storage_class_data objs)"
  unfolding calculate_storage_class_data_def
  by (rule dict_wf_fold) (simp add: dict_wf_def)

lemma map_of_Cons_madd:
  assumes "k \<notin> fst ` set g"
  shows "map_of ((k, n) # g) = madd [k \<mapsto> n] (map_of g)"
proof -
  have "map_of g k = None" using assms by (simp add: map_of_eq_None_iff)
  then show ?thesis by (auto simp: madd_def fun_eq_iff)
qed

lemma map_of_merge_global:
  "distinct (map fst g) \<Longrightarrow> map_of (merge_global g t) = madd (map_of t) (map_of g)"
proof (induction g arbitrary: t)
  case Nil
  then show ?case by (simp add: merge_global_def)
next
  case (Cons a g)
  obtain k n where a: "a = (k, n)" by (cases a)
  from Cons.prems have kn: "k \<notin> fst ` set g" and dg: "distinct (map fst g)" by (auto simp: a)
  have "map_of (merge_global (a # g) t) = map_of (merge_global g (dict_add k n t))"
    by (simp add: merge_global_def a)
  also have "\<dots> = madd (map_of (dict_add k n t)) (map_of g)"
    using dg by (rule Cons.IH)
  also have "\<dots> = madd (map_of t) (map_of (a # g))"
    unfolding a map_of_Cons_madd[OF kn] by (simp add: map_of_dict_add madd_assoc)
  finally show ?case .
qed

lemma prefix_view_class_fold:
  "distinct (map fst cs) \<Longrightarrow> map_of a k = Some d0 \<Longrightarrow>
   prefix_view (fold (\<lambda>(storage_class, size) a.
             dict_upd empty_detail
               (\<lambda>d. d\<lparr>StorageClass := dict_add storage_class size (StorageClass d)\<rparr>) k a) cs a)
   = (prefix_view a)(k \<mapsto> (TotalSize d0, madd (map_of (StorageClass d0)) (map_of cs)))"
proof (induction cs arbitrary: a d0)
  case Nil
  then show ?case by (auto simp: prefix_view_def detail_view_def fun_eq_iff)
next
  case (Cons x cs)
  obtain c n where x: "x = (c, n)" by (cases x)
  from Cons.prems have cn: "c \<notin> fst ` set cs" and dcs: "distinct (map fst cs)" by (auto simp: x)
  let ?a' = "dict_upd empty_detail (\<lambda>d. d\<lparr>StorageClass := dict_add c n (StorageClass d)\<rparr>) k a"
  let ?d1 = "d0\<lparr>StorageClass := dict_add c n (StorageClass d0)\<rparr>"
  have m: "map_of ?a' k = Some ?d1"
    using Cons.prems(2) by (simp add: map_of_dict_upd)
  have pv: "prefix_view ?a' = (prefix_view a)(k \<mapsto> detail_view ?d1)"
    using Cons.prems(2) by (simp add: prefix_view_dict_upd)
  show ?case
    unfolding x fold_simps prod.case Cons.IH[OF dcs m] pv map_of_Cons_madd[OF cn]
    by (simp add: map_of_dict_add madd_assoc)
qed

lemma prefix_view_merge_prefix:
  assumes "distinct (map fst (StorageClass details))"
  shows "prefix_view (merge_prefix (k, details) a) = padd (prefix_view a) [k \<mapsto> detail_view details]"
proof -
  let ?a1 = "dict_upd empty_detail (\<lambda>d. d\<lparr>TotalSize := TotalSize d + TotalSize details\<rparr>) k a"
  let ?w = "case map_of a k of None \<Rightarrow> empty_detail | Some w \<Rightarrow> w"
  let ?d0 = "?w\<lparr>TotalSize := TotalSize ?w + TotalSize details\<rparr>"
  have m: "map_of ?a1 k = Some ?d0" by (simp add: map_of_dict_upd)
  have "prefix_view (merge_prefix (k, details) a)
      = (prefix_view ?a1)(k \<mapsto> (TotalSize ?d0, madd (map_of (StorageClass ?d0)) (map_of (StorageClass details))))"
    unfolding merge_prefix_def prod.case by (rule prefix_view_class_fold[OF assms m])
  also have "\<dots> = padd (prefix_view a) [k \<mapsto> detail_view details]"
    unfolding prefix_view_dict_upd
    by (auto simp: padd_def fun_eq_iff prefix_view_def detail_view_def
        empty_detail_def split: option.splits)
  finally show ?thesis .
qed

lemma prefix_view_Cons:
  assumes "k \<notin> fst ` set p"
  shows "prefix_view ((k, d) # p) = padd [k \<mapsto> detail_view d] (prefix_view p)"
proof -
  have "map_of p k = None" using assms by (simp add: map_of_eq_None_iff)
  then show ?thesis by (auto simp: prefix_view_def padd_def fun_eq_iff)
qed

lemma prefix_view_fold_merge:
  "distinct (map fst p) \<Longrightarrow> \<forall>(k, d) \<in> set p. distinct (map fst (StorageClass d)) \<Longrightarrow>
   prefix_view (fold merge_prefix p a) = padd (prefix_view a) (prefix_view p)"
proof (induction p arbitrary: a)
  case Nil
  then show ?case by (simp add: prefix_view_def[of "[]"])
next
  case (Cons x p)
  obtain k d where x: "x = (k, d)" by (cases x)
  from Cons.prems have kn: "k \<notin> fst ` set p" and dp: "distinct (map fst p)"
    and dd: "distinct (map fst (StorageClass d))"
    and rest: "\<forall>(k, d) \<in> set p. distinct (map fst (StorageClass d))"
    by (auto simp: x)
  show ?case
    unfolding x fold_simps Cons.IH[OF dp rest] prefix_view_merge_prefix[OF dd] prefix_view_Cons[OF kn]
    by (simp add: padd_assoc)
qed

lemma state_view_merge_batch:
  "state_view (merge_batch objs st) = fold astep objs (state_view st)"
proof -
  obtain g p where gp: "calculate_storage_class_data objs = (g, p)"
    by (cases "calculate_storage_class_data objs")
  have wf: "dict_wf (g, p)" using dict_wf_calc[of objs] by (simp add: gp)
  have v: "state_view (g, p) = fold astep objs (Map.empty, Map.empty)"
    using state_view_fold_agg[of objs "([], [])"]
    by (simp add: gp[symmetric] calculate_storage_class_data_def state_view_def prefix_view_def)
  have "state_view (merge_batch objs st) = vadd (state_view st) (state_view (g, p))"
    using wf
    by (simp add: merge_batch_def gp state_view_def vadd_def dict_wf_def
        map_of_merge_global prefix_view_fold_merge)
  also have "\<dots> = fold astep objs (vadd (state_view st) (Map.empty, Map.empty))"
    unfolding v by (rule fold_astep_vadd[symmetric])
  finally show ?thesis by (simp add: vadd_def)
qed

lemma state_view_fold_merge_batch:
  "state_view (fold merge_batch batches st) = fold astep (concat batches) (state_view st)"
  by (induction batches arbitrary: st) (simp_all add: state_view_merge_batch)

lemma agg_inv_step: "agg_inv st \<Longrightarrow> agg_inv (agg_step obj st)"
proof -
  assume inv: "agg_inv st"
  obtain g p where st: "st = (g, p)" by (cases st)
  define sc where "sc = (case ObjStorageClass obj of None \<Rightarrow> ''STANDARD'' | Some c \<Rightarrow> c)"
  define n where "n = Size obj"
  define f :: "prefix_detail \<Rightarrow> prefix_detail"
    where "f = (\<lambda>d. d\<lparr>TotalSize := TotalSize d + n, StorageClass := dict_add sc n (StorageClass d)\<rparr>)"
  define p' where "p' = dict_upd empty_detail f (prefix_path (Key obj)) p"
  have step: "agg_step obj st = (dict_add sc n g, p')"
    by (simp add: st agg_step_alt sc_def n_def f_def p'_def Let_def)
  have i1: "\<forall>(pre, d) \<in> set p. TotalSize d = sum_list (map snd (StorageClass d))"
    and i2: "\<And>c. dict_get0 g c = (\<Sum>(pre, d)\<leftarrow>p. dict_get0 (StorageClass d) c)"
    and i3: "(\<Sum>(pre, d)\<leftarrow>p. TotalSize d) = sum_list (map snd g)"
    using inv by (auto simp: agg_inv_def st)
  have f_ok: "TotalSize (f d) = sum_list (map snd (StorageClass (f d)))"
    if "TotalSize d = sum_list (map snd (StorageClass d))" for d
    using that by (simp add: f_def sum_dict_add)
  have j1: "\<forall>(pre, d) \<in> set p'. TotalSize d = sum_list (map snd (StorageClass d))"
  proof (clarify)
    fix pre d assume "(pre, d) \<in> set p'"
    then consider "(pre, d) \<in> set p" | "d = f empty_detail"
      | w where "(prefix_path (Key obj), w) \<in> set p" "d = f w"
      unfolding p'_def by (auto dest: set_dict_upd)
    then show "TotalSize d = sum_list (map snd (StorageClass d))"
    proof cases
      case 1 then show ?thesis using i1 by auto
    next
      case 2 then show ?thesis by (simp add: f_ok empty_detail_def)
    next
      case 3 then show ?thesis using i1 f_ok by auto
    qed
  qed
  have j2: "dict_get0 (dict_add sc n g) c = (\<Sum>(pre, d)\<leftarrow>p'. dict_get0 (StorageClass d) c)" for c
  proof -
    have "(\<Sum>(pre, d)\<leftarrow>p'. dict_get0 (StorageClass d) c)
        = (\<Sum>(pre, d)\<leftarrow>p. dict_get0 (StorageClass d) c) + (if c = sc then n else 0)"
      unfolding p'_def
      by (rule sum_dict_upd)
        (simp_all add: empty_detail_def dict_get0_def f_def dict_get0_add[unfolded dict_get0_def])
    then show ?thesis by (simp add: dict_get0_add i2)
  qed
  have j3: "(\<Sum>(pre, d)\<leftarrow>p'. TotalSize d) = sum_list (map snd (dict_add sc n g))"
  proof -
    have "(\<Sum>(pre, d)\<leftarrow>p'. TotalSize d) = (\<Sum>(pre, d)\<leftarrow>p. TotalSize d) + n"
      unfolding p'_def by (rule sum_dict_upd) (simp_all add: empty_detail_def f_def)
    then show ?thesis by (simp add: sum_dict_add i3)
  qed
  show ?thesis unfolding step agg_inv_def using j1 j2 j3 by simp
qed

lemma agg_inv_fold: "agg_inv st \<Longrightarrow> agg_inv (fold agg_step objects st)"
  by (induction objects arbitrary: st) (simp_all add: agg_inv_step)

lemma agg_inv_calc: "agg_inv (calculate_storage_class_data objects)"
  unfolding calculate_storage_class_data_def
  by (rule agg_inv_fold) (simp add: agg_inv_def dict_get0_def)

lemma scenario_result:
  "calculate_storage_class_data scenario_objects =
     ([(''STANDARD'', 1124), (''GLACIER'', 924)],
      [(''a/'', \<lparr>TotalSize = 1024, StorageClass = [(''STANDARD'', 100), (''GLACIER'', 924)]\<rparr>),
       (''b/'', \<lparr>TotalSize = 1024, StorageClass = [(''STANDARD'', 1024)]\<rparr>)])"
  by (simp add: calculate_storage_class_data_def scenario_objects_def agg_step_def
      dict_add_def prefix_path_def empty_detail_def Let_def)

text \<open>
  C1.  For every sequence of object records, the result of
  \<^verbatim>\<open>calculate_storage_class_data\<close> satisfies: every prefix's \<^verbatim>\<open>TotalSize\<close> is the sum of its
  per-class byte counts (whose keys are distinct); for every storage class the global
  total is the sum of that class's bytes over all prefixes (a class absent from a
  dictionary counting 0); and the sum of all \<^verbatim>\<open>TotalSize\<close> values is the sum of all global
  totals.
\<close>

theorem aggregate_invariants:
  "(\<forall>(pre, d) \<in> set (snd (calculate_storage_class_data objects)).
       distinct (map fst (StorageClass d)) \<and>
       TotalSize d = sum_list (map snd (StorageClass d))) \<and>
   distinct (map fst (snd (calculate_storage_class_data objects))) \<and>
   distinct (map fst (fst (calculate_storage_class_data objects))) \<and>
   (\<forall>c. dict_get0 (fst (calculate_storage_class_data objects)) c =
       (\<Sum>(pre, d)\<leftarrow>snd (calculate_storage_class_data objects). dict_get0 (StorageClass d) c)) \<and>
   (\<Sum>(pre, d)\<leftarrow>snd (calculate_storage_class_data objects). TotalSize d) =
     sum_list (map snd (fst (calculate_storage_class_data objects)))"
  using agg_inv_calc[of objects] dict_wf_calc[of objects]
  unfolding agg_inv_def dict_wf_def by auto

theorem aggregate_invariants_witness:
  "TotalSize (snd (hd (snd (calculate_storage_class_data scenario_objects)))) = 100 + 924 \<and>
   dict_get0 (fst (calculate_storage_class_data scenario_objects)) ''STANDARD'' = 100 + 1024 \<and>
   sum_list (map snd (fst (calculate_storage_class_data scenario_objects))) = 1024 + 1024"
  using aggregate_invariants[of scenario_objects]
  by (simp add: scenario_result dict_get0_def)

text \<open>
  C7.  The prefix of a key is \<^verbatim>\<open>'/'.join(key.split('/')[:-1]) + '/'\<close>, where the segments
  of the split are exactly the \<^verbatim>\<open>'/'\<close>-delimited pieces of the key: joined again they give
  the key, none contains a \<^verbatim>\<open>'/'\<close>, and there is one more of them than the key has
  separators.  So a key with a separator is its prefix followed by its last segment,
  and a key without one, such as \<^verbatim>\<open>file.txt\<close>, has the prefix \<^verbatim>\<open>/\<close>.  The function is total.
\<close>

theorem prefix_resolver:
  "prefix_path key = str_join ''/'' (butlast (str_split CHR ''/'' key)) @ ''/'' \<and>
   str_join ''/'' (str_split CHR ''/'' key) = key \<and>
   (\<forall>seg \<in> set (str_split CHR ''/'' key). CHR ''/'' \<notin> set seg) \<and>
   length (str_split CHR ''/'' key) = Suc (count_list key CHR ''/'') \<and>
   (CHR ''/'' \<in> set key \<longrightarrow> key = prefix_path key @ last (str_split CHR ''/'' key)) \<and>
   (CHR ''/'' \<notin> set key \<longrightarrow> prefix_path key = ''/'') \<and>
   prefix_path ''file.txt'' = ''/''"
  using prefix_path_decomp[of key] prefix_path_root[of key] prefix_path_root[of "''file.txt''"]
  by (auto simp: str_join_split str_split_length prefix_path_def dest: str_split_no_sep)

theorem prefix_resolver_witness:
  "prefix_path ''logs/2024/app.log'' = ''logs/2024/'' \<and>
   str_split CHR ''/'' ''logs/2024/app.log'' = [''logs'', ''2024'', ''app.log''] \<and>
   prefix_path ''file.txt'' = ''/''"
  using prefix_resolver[of "''logs/2024/app.log''"]
  by (simp add: prefix_path_def)

lemma scenario_batches_mset: "mset (concat scenario_batches) = mset scenario_objects"
  by (simp add: scenario_batches_def scenario_objects_def)

text \<open>
  C2.  Whenever the batches together hold the same multiset of records as a single
  list, merging the per-batch results as \<^verbatim>\<open>main\<close> does gives the same global dictionary
  and the same per-prefix dictionary (totals and per-class maps) as one call of
  \<^verbatim>\<open>calculate_storage_class_data\<close> on the list, as Python compares dictionaries.
\<close>

theorem batching_independent:
  assumes "mset (concat batches) = mset objects"
  shows "map_of (fst (main_aggregate batches)) = map_of (fst (calculate_storage_class_data objects)) \<and>
         prefix_view (snd (main_aggregate batches)) = prefix_view (snd (calculate_storage_class_data objects))"
proof -
  have "state_view (main_aggregate batches) = fold astep (concat batches) (state_view ([], []))"
    unfolding main_aggregate_def by (rule state_view_fold_merge_batch)
  also have "\<dots> = fold astep objects (state_view ([], []))"
    using fold_astep_mset[OF assms] by simp
  also have "\<dots> = state_view (calculate_storage_class_data objects)"
    unfolding calculate_storage_class_data_def by (rule state_view_fold_agg[symmetric])
  finally show ?thesis by (simp add: state_view_def)
qed

theorem batching_independent_witness:
  "mset (concat scenario_batches) = mset scenario_objects \<and>
   map_of (fst (main_aggregate scenario_batches)) = [''STANDARD'' \<mapsto> 1124, ''GLACIER'' \<mapsto> 924] \<and>
   prefix_view (snd (main_aggregate scenario_batches)) =
     prefix_view (snd (calculate_storage_class_data scenario_objects))"
  using batching_independent[OF scenario_batches_mset] scenario_batches_mset
  by (auto simp: scenario_result)

section \<open>The ranker\<close>

lemma dict_upd_append_new: "k \<notin> fst ` set m \<Longrightarrow> dict_upd d f k m = m @ [(k, f d)]"
  by (induction m) auto

lemma fold_dict_set_distinct:
  "distinct (map fst items) \<Longrightarrow> fst ` set items \<inter> fst ` set acc = {} \<Longrightarrow>
   fold (\<lambda>(k, v) m. dict_set k v m) items acc = acc @ items"
proof (induction items arbitrary: acc)
  case Nil
  then show ?case by simp
next
  case (Cons x items)
  obtain k v where x: "x = (k, v)" by (cases x)
  from Cons.prems have knew: "k \<notin> fst ` set acc" and kn: "k \<notin> fst ` set items"
    and d: "distinct (map fst items)" and disj: "fst ` set items \<inter> fst ` set acc = {}"
    by (auto simp: x)
  have step: "dict_set k v acc = acc @ [(k, v)]"
    unfolding dict_set_def using knew by (rule dict_upd_append_new)
  have "fst ` set items \<inter> fst ` set (acc @ [(k, v)]) = {}"
    using disj kn by auto
  from Cons.IH[OF d this] show ?case by (simp add: x step)
qed

lemma dict_of_items_distinct: "distinct (map fst items) \<Longrightarrow> dict_of_items items = items"
  unfolding dict_of_items_def using fold_dict_set_distinct[of items "[]"] by simp

lemma distinct_sorted_prefix_details:
  "distinct (map fst a) \<Longrightarrow> distinct (map fst (sorted_prefix_details a))"
proof -
  assume "distinct (map fst a)"
  have "mset (map fst (sorted_prefix_details a)) = mset (map fst a)"
    unfolding sorted_prefix_details_def by simp
  then show ?thesis using \<open>distinct (map fst a)\<close> by (metis mset_eq_imp_distinct_iff)
qed

lemma distinct_slice_to: "distinct (map fst xs) \<Longrightarrow> distinct (map fst (slice_to n xs))"
  by (simp add: slice_to_def take_map[symmetric] distinct_take)

lemma top_prefix_details_eq:
  "distinct (map fst a) \<Longrightarrow> top_prefix_details a n = slice_to n (sorted_prefix_details a)"
  unfolding top_prefix_details_def
  by (intro dict_of_items_distinct distinct_slice_to distinct_sorted_prefix_details)

lemma sorted_desc: "sorted_wrt (\<lambda>x y. TotalSize (snd y) \<le> TotalSize (snd x)) (sorted_prefix_details a)"
proof -
  have "sorted (map (\<lambda>item. - TotalSize (snd item)) (sorted_prefix_details a))"
    unfolding sorted_prefix_details_def by (rule sorted_sort_key)
  then show ?thesis by (simp add: sorted_map)
qed

text \<open>
  C8.  For a dictionary of prefixes and a non-negative \<^verbatim>\<open>top_n\<close>, the ranked result has
  \<open>min top_n (number of prefixes)\<close> entries, is sorted by \<^verbatim>\<open>TotalSize\<close> descending, is the
  front of the sorted items (themselves a permutation of the dictionary's items), and is
  empty for \<^verbatim>\<open>top_n = 0\<close>.
\<close>

theorem top_prefixes_ranked:
  assumes "distinct (map fst all_prefix_details)" and "0 \<le> top_n"
  shows "length (top_prefix_details all_prefix_details top_n) = min (nat top_n) (length all_prefix_details) \<and>
         sorted_wrt (\<lambda>x y. TotalSize (snd y) \<le> TotalSize (snd x)) (top_prefix_details all_prefix_details top_n) \<and>
         top_prefix_details all_prefix_details top_n = take (nat top_n) (sorted_prefix_details all_prefix_details) \<and>
         mset (sorted_prefix_details all_prefix_details) = mset all_prefix_details \<and>
         top_prefix_details all_prefix_details 0 = []"
proof -
  have e: "top_prefix_details all_prefix_details n = slice_to n (sorted_prefix_details all_prefix_details)" for n
    using assms(1) by (rule top_prefix_details_eq)
  have len: "length (sorted_prefix_details all_prefix_details) = length all_prefix_details"
    by (simp add: sorted_prefix_details_def)
  have "sorted_wrt (\<lambda>x y. TotalSize (snd y) \<le> TotalSize (snd x)) (take (nat top_n) (sorted_prefix_details all_prefix_details))"
    using sorted_desc by (rule sorted_wrt_take)
  then show ?thesis using assms(2) by (simp add: e slice_to_def len sorted_prefix_details_def)
qed

theorem top_prefixes_ranked_witness:
  "distinct (map fst (snd (calculate_storage_class_data scenario_objects))) \<and>
   length (top_prefix_details (snd (calculate_storage_class_data scenario_objects)) 1) = 1 \<and>
   top_prefix_details (snd (calculate_storage_class_data scenario_objects)) 0 = []"
proof -
  have d: "distinct (map fst (snd (calculate_storage_class_data scenario_objects)))"
    by (simp add: scenario_result)
  have n: "(0::int) \<le> 1" by simp
  have l: "length (snd (calculate_storage_class_data scenario_objects)) = 2"
    by (simp add: scenario_result)
  have a: "length (top_prefix_details (snd (calculate_storage_class_data scenario_objects)) 1) =
       min (nat 1) (length (snd (calculate_storage_class_data scenario_objects)))"
    and b: "top_prefix_details (snd (calculate_storage_class_data scenario_objects)) 0 = []"
    using top_prefixes_ranked[OF d n] by blast+
  show ?thesis unfolding a b l using d by simp
qed

section \<open>The lifecycle matcher and the summaries\<close>

lemma get_lifecycle_fold:
  "fold (\<lambda>policy applicable_policies.
             (case Filter policy of
                Some flt \<Rightarrow>
                  if (case flt_Prefix flt of Some p \<Rightarrow> startswith pfx p | None \<Rightarrow> False)
                  then applicable_policies @ [policy]
                  else if (case flt_And flt of
                             Some a \<Rightarrow> (case and_Prefix a of
                                          Some p \<Rightarrow> startswith pfx p
                                        | None \<Rightarrow> False)
                           | None \<Rightarrow> False)
                  then applicable_policies @ [policy]
                  else applicable_policies
              | None \<Rightarrow> applicable_policies @ [policy])) rules acc
   = acc @ filter (rule_applies pfx) rules"
  by (induction rules arbitrary: acc) (auto simp: rule_applies_def split: option.splits)

lemma get_lifecycle_filter: "get_lifecycle_for_prefix pfx rules = filter (rule_applies pfx) rules"
  by (simp add: get_lifecycle_for_prefix_def get_lifecycle_fold)

lemma startswith_logs: "startswith ''logs/2024/'' ''logs/''" "\<not> startswith ''images/'' ''logs/''"
  by (simp_all add: startswith_def)

lemma startswith_prefix: "startswith s p \<longleftrightarrow> (\<exists>t. s = p @ t)"
  unfolding startswith_def
  by (metis append_eq_conv_conj append_take_drop_id)

lemma fold_snoc_map: "fold (\<lambda>x acc. acc @ [f x]) xs acc = acc @ map f xs"
  by (induction xs arbitrary: acc) auto

lemma fold_append_concat: "fold (\<lambda>x acc. acc @ f x) xs acc = acc @ concat (map f xs)"
  by (induction xs arbitrary: acc) auto

lemma summarize_map: "summarize_lifecycle_rules b rules = map (summarize_rule b) rules"
  by (simp add: summarize_lifecycle_rules_def fold_snoc_map)

lemma rule_rows_length:
  "length (rule_rows b rule) = max 1 (length (case Transitions rule of None \<Rightarrow> [] | Some ts \<Rightarrow> ts))"
proof (cases "Transitions rule")
  case None
  then show ?thesis by (simp add: rule_rows_def parse_lifecycle_rule_def)
next
  case (Some ts)
  then show ?thesis
    by (cases ts) (simp_all add: rule_rows_def parse_lifecycle_rule_def fold_snoc_map Let_def)
qed

text \<open>
  C5.  The claim: a rule whose \<^verbatim>\<open>Filter\<close> holds neither a \<^verbatim>\<open>Prefix\<close> nor an \<^verbatim>\<open>And\<close> with a
  \<^verbatim>\<open>Prefix\<close> matches every prefix.  The code: such a rule is appended by no branch and
  matches no prefix.
\<close>

theorem prefixless_filter_matches_nothing:
  "get_lifecycle_for_prefix ''logs/'' [empty_filter_rule] = []"
  by (simp add: get_lifecycle_for_prefix_def empty_filter_rule_def)

text \<open>
  C4.  The claim: the matcher returns, in input order, exactly the rules without a filter
  prefix and the rules whose filter prefix is a prefix of the target.  The code agrees
  (\<open>get_lifecycle_filter\<close>) except on a rule that has a \<^verbatim>\<open>Filter\<close> without any prefix in
  it: such a rule has no filter prefix and is left out all the same.
\<close>

theorem matcher_leaves_out_prefixless_filter:
  "get_lifecycle_for_prefix ''logs/2024/'' [bucket_wide_rule, tag_only_rule, two_transition_rule] =
     [bucket_wide_rule, two_transition_rule]"
  by (simp add: get_lifecycle_filter rule_applies_def bucket_wide_rule_def tag_only_rule_def
      two_transition_rule_def startswith_def)

text \<open>
  C9.  The claim: the summary holds one row per rule and transition.  The code of
  \<^verbatim>\<open>summarize_lifecycle_rules\<close> returns one row per rule, holding the last transition
  only; \<^verbatim>\<open>write_lifecycle_details_to_excel\<close> of lifecycle\_rules.py returns one row per
  transition (\<open>rule_rows_length\<close>).
\<close>

theorem summary_keeps_last_transition_only:
  "summarize_lifecycle_rules ''b'' [two_transition_rule] =
     [\<lparr>Bucket = ''b'', row_ID = Str ''tiering'', row_Prefix = Str ''logs/'', row_Status = Str ''Enabled'',
       Transition_Days = Num 90, Storage_Class = Str ''GLACIER'', Expiration_Days = Num 365,
       Delete_Marker = Str ''No''\<rparr>]"
  by (simp add: summarize_lifecycle_rules_def summarize_rule_def two_transition_rule_def
      get_str_def get_int_def filter_prefix_cell_def)

section \<open>Rounding to a double\<close>

lemma powi_pos: "0 < (2::rat) powi k"
  by (simp add: power_int_def)

lemma bitlen_bounds_rat:
  assumes "0 < n"
  shows "(2::rat) powi (bitlen n - 1) \<le> of_int n" "of_int n < (2::rat) powi bitlen n"
proof -
  from bitlen_bounds[OF assms] have a: "2 ^ nat (bitlen n - 1) \<le> n" and b: "n < 2 ^ nat (bitlen n)"
    by auto
  have bl: "1 \<le> bitlen n" using assms by (simp add: bitlen_alt_def)
  have "(2::rat) powi (bitlen n - 1) = of_int (2 ^ nat (bitlen n - 1))"
    using bl by (simp add: power_int_def)
  also have "\<dots> \<le> of_int n" using a by (simp only: of_int_le_iff)
  finally show "(2::rat) powi (bitlen n - 1) \<le> of_int n" .
  have "(of_int n :: rat) < of_int (2 ^ nat (bitlen n))" using b by (simp only: of_int_less_iff)
  also have "\<dots> = 2 powi bitlen n" using bl by (simp add: power_int_def)
  finally show "of_int n < (2::rat) powi bitlen n" .
qed

lemma ilog2_bounds:
  assumes "0 < q"
  shows "2 powi ilog2 q \<le> q" and "q < 2 powi (ilog2 q + 1)"
proof -
  show "2 powi ilog2 q \<le> q"
  proof (cases "1 \<le> q")
    case True
    then have n: "0 < \<lfloor>q\<rfloor>" by linarith
    have "2 powi ilog2 q = 2 powi (bitlen \<lfloor>q\<rfloor> - 1)" using True by (simp add: ilog2_def)
    also have "\<dots> \<le> (of_int \<lfloor>q\<rfloor> :: rat)" using n by (rule bitlen_bounds_rat)
    also have "\<dots> \<le> q" by simp
    finally show ?thesis .
  next
    case False
    define N where "N = \<lceil>1 / q\<rceil>"
    have r1: "1 < 1 / q" using False assms by (simp add: field_simps)
    then have N2: "0 < N - 1" unfolding N_def by linarith
    have up: "1 / q \<le> of_int N" unfolding N_def by (rule le_of_int_ceiling)
    have "of_int (N - 1) < (2::rat) powi bitlen (N - 1)" using N2 by (rule bitlen_bounds_rat)
    then have "of_int N \<le> (2::rat) powi bitlen (N - 1)"
    proof -
      have bl: "0 \<le> bitlen (N - 1)" by (rule bitlen_nonneg)
      have "(2::rat) powi bitlen (N - 1) = of_int (2 ^ nat (bitlen (N - 1)))"
        using bl by (simp add: power_int_def)
      moreover have "N - 1 < 2 ^ nat (bitlen (N - 1))" using bitlen_bounds[OF N2] by simp
      then have "N \<le> 2 ^ nat (bitlen (N - 1))" by linarith
      then have "(of_int N::rat) \<le> of_int (2 ^ nat (bitlen (N - 1)))" by (simp only: of_int_le_iff)
      ultimately show ?thesis by simp
    qed
    with up have "1 / q \<le> 2 powi bitlen (N - 1)" by linarith
    then have "1 / (2 powi bitlen (N - 1)) \<le> q"
      using assms powi_pos[of "bitlen (N - 1)"] by (simp add: field_simps)
    moreover have "2 powi ilog2 q = 1 / ((2::rat) powi bitlen (N - 1))"
      using False by (simp add: ilog2_def N_def power_int_minus field_simps)
    ultimately show ?thesis by simp
  qed
  show "q < 2 powi (ilog2 q + 1)"
  proof (cases "1 \<le> q")
    case True
    then have n: "0 < \<lfloor>q\<rfloor>" by linarith
    have "q < of_int (\<lfloor>q\<rfloor> + 1)" by linarith
    also have "\<dots> \<le> 2 powi bitlen \<lfloor>q\<rfloor>"
    proof -
      have bl: "0 \<le> bitlen \<lfloor>q\<rfloor>" by (rule bitlen_nonneg)
      have "\<lfloor>q\<rfloor> < 2 ^ nat (bitlen \<lfloor>q\<rfloor>)" using bitlen_bounds[OF n] by simp
      then have "\<lfloor>q\<rfloor> + 1 \<le> 2 ^ nat (bitlen \<lfloor>q\<rfloor>)" by linarith
      then have "(of_int (\<lfloor>q\<rfloor> + 1)::rat) \<le> of_int (2 ^ nat (bitlen \<lfloor>q\<rfloor>))" by (simp only: of_int_le_iff)
      then show ?thesis using bl by (simp add: power_int_def)
    qed
    finally show ?thesis using True by (simp add: ilog2_def)
  next
    case False
    define N where "N = \<lceil>1 / q\<rceil>"
    have r1: "1 < 1 / q" using False assms by (simp add: field_simps)
    then have N2: "0 < N - 1" unfolding N_def by linarith
    have lo: "of_int (N - 1) < 1 / q" unfolding N_def by linarith
    have "(2::rat) powi (bitlen (N - 1) - 1) \<le> of_int (N - 1)" using N2 by (rule bitlen_bounds_rat)
    with lo have "(2::rat) powi (bitlen (N - 1) - 1) < 1 / q" by linarith
    then have "q < 1 / 2 powi (bitlen (N - 1) - 1)"
      using assms powi_pos[of "bitlen (N - 1) - 1"] by (simp add: field_simps)
    moreover have "2 powi (ilog2 q + 1) = 1 / ((2::rat) powi (bitlen (N - 1) - 1))"
    proof -
      have "ilog2 q + 1 = - (bitlen (N - 1) - 1)" using False by (simp add: ilog2_def N_def)
      then show ?thesis by (simp only: power_int_minus) (simp add: field_simps)
    qed
    ultimately show ?thesis by simp
  qed
qed

lemma powi_less_imp:
  assumes "(2::rat) powi a < 2 powi b"
  shows "a < b"
proof (rule ccontr)
  assume "\<not> a < b"
  then have "b \<le> a" by simp
  then have "(2::rat) powi b \<le> 2 powi a" by (rule power_int_increasing) simp
  with assms show False by simp
qed

lemma ilog2_unique:
  assumes "0 < q" "2 powi k \<le> q" "q < 2 powi (k + 1)"
  shows "ilog2 q = k"
proof -
  from ilog2_bounds[OF assms(1)] have a: "2 powi ilog2 q \<le> q" and b: "q < 2 powi (ilog2 q + 1)" by auto
  have "(2::rat) powi k < 2 powi (ilog2 q + 1)" using assms(2) b by linarith
  then have "k < ilog2 q + 1" by (rule powi_less_imp)
  moreover have "(2::rat) powi ilog2 q < 2 powi (k + 1)" using a assms(3) by linarith
  then have "ilog2 q < k + 1" by (rule powi_less_imp)
  ultimately show ?thesis by linarith
qed

lemma rhe_near: "\<bar>of_int (round_half_even r) - r\<bar> \<le> 1 / 2"
proof -
  have "of_int \<lfloor>r\<rfloor> \<le> r" "r < of_int \<lfloor>r\<rfloor> + 1" by linarith+
  then show ?thesis
    unfolding round_half_even_def Let_def by (auto simp: abs_le_iff)
qed

lemma rhe_of_int [simp]: "round_half_even (of_int n) = n"
  by (simp add: round_half_even_def)

lemma rhe_le:
  assumes "r \<le> of_int N"
  shows "round_half_even r \<le> N"
proof (cases "r = of_int N")
  case True
  then show ?thesis by simp
next
  case False
  with assms have lt: "r < of_int N" by simp
  then have f: "\<lfloor>r\<rfloor> < N" by (simp add: floor_less_iff)
  then have "\<lfloor>r\<rfloor> + 1 \<le> N" by simp
  then show ?thesis unfolding round_half_even_def Let_def using f by auto
qed

lemma rhe_ge:
  assumes "of_int N \<le> r"
  shows "N \<le> round_half_even r"
proof -
  have "N \<le> \<lfloor>r\<rfloor>" using assms by (simp add: le_floor_iff)
  then show ?thesis unfolding round_half_even_def Let_def by auto
qed

lemma rhe_lt_half:
  assumes "r < of_int N - 1 / 2"
  shows "round_half_even r \<le> N - 1"
proof -
  have "of_int (round_half_even r) - r \<le> 1 / 2"
    using rhe_near[of r] by (rule abs_le_D1)
  with assms have "(of_int (round_half_even r) :: rat) < of_int N" by linarith
  then have "round_half_even r < N" by (simp only: of_int_less_iff)
  then show ?thesis by simp
qed

lemma rhe_ge_half_even:
  assumes "of_int N - 1 / 2 \<le> r" and "even N"
  shows "N \<le> round_half_even r"
proof (cases "of_int N \<le> r")
  case True
  then show ?thesis by (rule rhe_ge)
next
  case False
  then have lt: "r < of_int N" by simp
  have ge: "of_int (N - 1) \<le> r" using assms(1) by simp
  have f: "\<lfloor>r\<rfloor> = N - 1" using lt ge by (simp add: floor_eq_iff)
  have d: "1 / 2 \<le> r - of_int \<lfloor>r\<rfloor>" using assms(1) by (simp add: f)
  have odd: "odd \<lfloor>r\<rfloor>" using assms(2) by (simp add: f)
  show ?thesis unfolding round_half_even_def Let_def using d odd f by auto
qed

lemma powi_nat: "0 \<le> k \<Longrightarrow> (2::rat) powi k = of_int (2 ^ nat k)"
  by (simp add: power_int_def)

lemma powi_mono: "a \<le> b \<Longrightarrow> (2::rat) powi a \<le> 2 powi b"
  by (rule power_int_increasing) simp_all

lemma powi_strict_mono: "a < b \<Longrightarrow> (2::rat) powi a < 2 powi b"
  by (rule power_int_strict_increasing) simp_all

lemma powi_add: "(2::rat) powi (a + b) = 2 powi a * 2 powi b"
  by (rule power_int_add) simp

lemma powi_diff: "(2::rat) powi (a - b) = 2 powi a / 2 powi b"
  by (rule power_int_diff) simp

lemma powi_half: "(2::rat) powi (a - 1) = 2 powi a / 2"
  by (simp add: powi_diff)

lemma ilog2_le:
  assumes "0 < q" "q \<le> 2 powi k"
  shows "ilog2 q \<le> k"
proof -
  have "2 powi ilog2 q \<le> q" using assms(1) by (rule ilog2_bounds)
  also note assms(2)
  also have "(2::rat) powi k < 2 powi (k + 1)" by (rule powi_strict_mono) simp
  finally have "ilog2 q < k + 1" by (rule powi_less_imp)
  then show ?thesis by simp
qed

lemma round_to_pos_eq:
  assumes "0 < q"
    and "e = max (ilog2 q - (p - 1)) emin"
    and "m = round_half_even (q / 2 powi e)"
    and "of_int m * (2::rat) powi e < 2 powi emax"
  shows "round_to p emin emax q = Fin (of_int m * 2 powi e)"
proof -
  have aq: "\<bar>q\<bar> = q" using assms(1) by simp
  have "(of_int 0 :: rat) \<le> q / 2 powi e" using assms(1) powi_pos[of e] by simp
  then have "0 \<le> m" unfolding assms(3) by (rule rhe_ge)
  then have lo: "0 \<le> of_int m * (2::rat) powi e" using powi_pos[of e] by simp
  have "- ((2::rat) powi emax) < 0" using powi_pos[of emax] by simp
  with lo have nlo: "\<not> of_int m * (2::rat) powi e \<le> - (2 powi emax)" by linarith
  have nhi: "\<not> 2 powi emax \<le> of_int m * (2::rat) powi e" using assms(4) by simp
  show ?thesis
    unfolding round_to_def aq Let_def assms(2)[symmetric] assms(3)[symmetric]
    using assms(1) nlo nhi by simp
qed

lemma round_to_pos_overflow:
  assumes "0 < q"
    and "e = max (ilog2 q - (p - 1)) emin"
    and "m = round_half_even (q / 2 powi e)"
    and "2 powi emax \<le> of_int m * (2::rat) powi e"
  shows "round_to p emin emax q = PInf"
proof -
  have aq: "\<bar>q\<bar> = q" using assms(1) by simp
  show ?thesis
    unfolding round_to_def aq Let_def assms(2)[symmetric] assms(3)[symmetric]
    using assms(1) assms(4) by simp
qed

lemma round_to_le_pow2:
  assumes "0 < q" "q \<le> 2 powi k" "emin \<le> k" "k < emax" "1 \<le> p"
  shows "\<exists>r. round_to p emin emax q = Fin r \<and> 0 \<le> r \<and> r \<le> 2 powi k"
proof -
  define e where "e = max (ilog2 q - (p - 1)) emin"
  define m where "m = round_half_even (q / 2 powi e)"
  have ek: "e \<le> k" using ilog2_le[OF assms(1,2)] assms(3,5) by (simp add: e_def)
  have pe: "0 < (2::rat) powi e" by (rule powi_pos)
  have "q / 2 powi e \<le> 2 powi k / 2 powi e" using assms(2) pe by (simp add: divide_right_mono)
  also have "\<dots> = 2 powi (k - e)" by (simp add: powi_diff)
  also have "\<dots> = of_int (2 ^ nat (k - e))" using ek by (simp add: powi_nat)
  finally have "m \<le> 2 ^ nat (k - e)" unfolding m_def by (rule rhe_le)
  then have "(of_int m :: rat) \<le> of_int (2 ^ nat (k - e))" by (simp only: of_int_le_iff)
  also have "\<dots> = 2 powi (k - e)" using ek by (simp add: powi_nat)
  finally have "of_int m * 2 powi e \<le> 2 powi (k - e) * (2::rat) powi e"
    using pe by (simp add: mult_right_mono)
  also have "\<dots> = 2 powi k" by (simp flip: powi_add)
  finally have up: "of_int m * 2 powi e \<le> (2::rat) powi k" .
  also have "(2::rat) powi k < 2 powi emax" using assms(4) by (rule powi_strict_mono)
  finally have lt: "of_int m * 2 powi e < (2::rat) powi emax" .
  have eq: "round_to p emin emax q = Fin (of_int m * 2 powi e)"
    using assms(1) e_def m_def lt by (rule round_to_pos_eq)
  have "(of_int 0 :: rat) \<le> q / 2 powi e" using assms(1) pe by simp
  then have "0 \<le> m" unfolding m_def by (rule rhe_ge)
  then have lo: "0 \<le> of_int m * (2::rat) powi e" using pe by simp
  show ?thesis using eq up lo by blast
qed

lemma round_to_zero [simp]: "round_to p emin emax 0 = Fin 0"
  by (simp add: round_to_def)

lemma round_to_finite:
  assumes "0 \<le> q" "q < 2 powi emax - 2 powi (emax - p - 1)" "1 \<le> p" "emin \<le> emax - p"
  shows "\<exists>r. round_to p emin emax q = Fin r \<and> 0 \<le> r \<and> r \<le> 2 powi emax - 2 powi (emax - p)"
proof -
  have top: "(2::rat) powi (emax - 1) \<le> 2 powi emax - 2 powi (emax - p)"
  proof -
    have "(2::rat) powi (emax - p) \<le> 2 powi (emax - 1)" using assms(3) by (intro powi_mono) simp
    moreover have "(2::rat) powi emax = 2 powi (emax - 1) + 2 powi (emax - 1)"
      by (simp add: powi_half)
    ultimately show ?thesis by linarith
  qed
  consider "q = 0" | "0 < q" "q \<le> 2 powi (emax - 1)" | "2 powi (emax - 1) < q"
    using assms(1) by fastforce
  then show ?thesis
  proof cases
    case 1
    have "0 < (2::rat) powi (emax - 1)" by (rule powi_pos)
    with top have "0 \<le> (2::rat) powi emax - 2 powi (emax - p)" by linarith
    then show ?thesis using 1 by simp
  next
    case 2
    have "emin \<le> emax - 1" using assms(3,4) by simp
    from round_to_le_pow2[OF 2 this _ assms(3), of emax] obtain r
      where "round_to p emin emax q = Fin r" "0 \<le> r" "r \<le> 2 powi (emax - 1)" by auto
    then show ?thesis using top by (metis order_trans)
  next
    case 3
    have q0: "0 < q" using 3 powi_pos[of "emax - 1"] by linarith
    have "0 < (2::rat) powi (emax - p - 1)" by (rule powi_pos)
    with assms(2) have "q < 2 powi emax" by linarith
    then have "q < 2 powi (emax - 1 + 1)" by simp
    with 3 q0 have il: "ilog2 q = emax - 1" by (intro ilog2_unique) simp_all
    define e where "e = emax - p"
    have e_eq: "e = max (ilog2 q - (p - 1)) emin" using assms(4) by (simp add: il e_def)
    define m where "m = round_half_even (q / 2 powi e)"
    have pe: "0 < (2::rat) powi e" by (rule powi_pos)
    have p0: "0 \<le> p" using assms(3) by simp
    have "q / 2 powi e < (2 powi emax - 2 powi (emax - p - 1)) / 2 powi e"
      using assms(2) pe by (simp add: divide_strict_right_mono)
    also have "\<dots> = 2 powi emax / 2 powi e - 2 powi (emax - p - 1) / 2 powi e"
      by (simp add: diff_divide_distrib)
    also have "\<dots> = 2 powi (emax - e) - 2 powi (emax - p - 1 - e)"
      by (simp only: powi_diff)
    also have "\<dots> = 2 powi p - 2 powi (- 1)" by (simp add: e_def)
    also have "\<dots> = of_int (2 ^ nat p) - 1 / 2" using p0 by (simp add: powi_nat)
    finally have "m \<le> 2 ^ nat p - 1" unfolding m_def by (rule rhe_lt_half)
    then have "(of_int m :: rat) \<le> of_int (2 ^ nat p - 1)" by (simp only: of_int_le_iff)
    then have "of_int m * (2::rat) powi e \<le> of_int (2 ^ nat p - 1) * 2 powi e"
      using pe by (simp add: mult_right_mono)
    also have "\<dots> = (2 powi p - 1) * 2 powi e" using p0 by (simp add: powi_nat)
    also have "\<dots> = 2 powi (p + e) - 2 powi e" by (simp add: powi_add algebra_simps)
    also have "\<dots> = 2 powi emax - 2 powi (emax - p)" by (simp add: e_def)
    finally have up: "of_int m * (2::rat) powi e \<le> 2 powi emax - 2 powi (emax - p)" .
    have "0 < (2::rat) powi (emax - p)" by (rule powi_pos)
    with up have lt: "of_int m * (2::rat) powi e < 2 powi emax" by linarith
    have eq: "round_to p emin emax q = Fin (of_int m * 2 powi e)"
      using q0 e_eq m_def lt by (rule round_to_pos_eq)
    have "(of_int 0 :: rat) \<le> q / 2 powi e" using q0 pe by simp
    then have "0 \<le> m" unfolding m_def by (rule rhe_ge)
    then have lo: "0 \<le> of_int m * (2::rat) powi e" using pe by simp
    show ?thesis using eq up lo by blast
  qed
qed

lemma round_to_overflow:
  assumes "2 powi emax - 2 powi (emax - p - 1) \<le> q" "1 \<le> p" "emin \<le> emax - p"
  shows "round_to p emin emax q = PInf"
proof -
  have half: "(2::rat) powi emax = 2 powi (emax - 1) + 2 powi (emax - 1)"
    by (simp add: powi_half)
  have "(2::rat) powi (emax - p - 1) < 2 powi (emax - 1)" using assms(2) by (intro powi_strict_mono) simp
  with half have low: "(2::rat) powi (emax - 1) < 2 powi emax - 2 powi (emax - p - 1)" by linarith
  have q0: "0 < q" using assms(1) low powi_pos[of "emax - 1"] by linarith
  define k where "k = ilog2 q"
  have lo: "2 powi k \<le> q" and hi: "q < 2 powi (k + 1)"
    unfolding k_def using ilog2_bounds[OF q0] by auto
  from low assms(1) hi have "(2::rat) powi (emax - 1) < 2 powi (k + 1)" by linarith
  then have kge: "emax - 1 \<le> k" using powi_less_imp[of "emax - 1" "k + 1"] by simp
  define e where "e = k - (p - 1)"
  have e_eq: "e = max (ilog2 q - (p - 1)) emin" using kge assms(3) by (simp add: e_def k_def)
  define m where "m = round_half_even (q / 2 powi e)"
  have pe: "0 < (2::rat) powi e" by (rule powi_pos)
  have p0: "0 \<le> p" using assms(2) by simp
  have big: "2 powi emax \<le> of_int m * (2::rat) powi e"
  proof (cases "k = emax - 1")
    case True
    then have e: "e = emax - p" by (simp add: e_def)
    have ev: "even ((2::int) ^ nat p)" using assms(2) by simp
    have "of_int (2 ^ nat p) - 1 / 2 = 2 powi p - (2::rat) powi (- 1)" using p0 by (simp add: powi_nat)
    also have "\<dots> = 2 powi (emax - e) - 2 powi (emax - p - 1 - e)" by (simp add: e)
    also have "\<dots> = 2 powi emax / 2 powi e - 2 powi (emax - p - 1) / 2 powi e"
      by (simp only: powi_diff)
    also have "\<dots> = (2 powi emax - 2 powi (emax - p - 1)) / 2 powi e"
      by (simp add: diff_divide_distrib)
    also have "\<dots> \<le> q / 2 powi e" using assms(1) pe by (simp add: divide_right_mono)
    finally have "2 ^ nat p \<le> m" unfolding m_def using ev by (rule rhe_ge_half_even)
    then have "(of_int (2 ^ nat p) :: rat) \<le> of_int m" by (simp only: of_int_le_iff)
    then have step: "of_int (2 ^ nat p) * (2::rat) powi e \<le> of_int m * 2 powi e"
      using pe by (simp add: mult_right_mono)
    have "(2::rat) powi emax = 2 powi (p + e)" by (simp add: e)
    also have "\<dots> = of_int (2 ^ nat p) * (2::rat) powi e"
      using p0 by (simp add: powi_add powi_nat)
    also note step
    finally show ?thesis .
  next
    case False
    with kge have kmax: "emax \<le> k" by simp
    have "of_int (2 ^ nat (p - 1)) = (2::rat) powi (p - 1)" using assms(2) by (simp add: powi_nat)
    also have "\<dots> = 2 powi (k - e)" by (simp add: e_def)
    also have "\<dots> = 2 powi k / 2 powi e" by (simp only: powi_diff)
    also have "\<dots> \<le> q / 2 powi e" using lo pe by (simp add: divide_right_mono)
    finally have "2 ^ nat (p - 1) \<le> m" unfolding m_def by (rule rhe_ge)
    then have "(of_int (2 ^ nat (p - 1)) :: rat) \<le> of_int m" by (simp only: of_int_le_iff)
    then have step: "of_int (2 ^ nat (p - 1)) * (2::rat) powi e \<le> of_int m * 2 powi e"
      using pe by (simp add: mult_right_mono)
    have "(2::rat) powi emax \<le> 2 powi k" using kmax by (rule powi_mono)
    also have "\<dots> = 2 powi (p - 1 + e)" by (simp add: e_def)
    also have "\<dots> = of_int (2 ^ nat (p - 1)) * (2::rat) powi e"
      using assms(2) by (simp only: powi_add) (simp add: powi_nat)
    also note step
    finally show ?thesis .
  qed
  show ?thesis using q0 e_eq m_def big by (rule round_to_pos_overflow)
qed


lemma round_to_exact:
  assumes "0 < m" "m < 2 ^ nat p" "emin \<le> E" "p + E \<le> emax" "1 \<le> p"
  shows "round_to p emin emax (of_int m * 2 powi E) = Fin (of_int m * 2 powi E)"
proof -
  define q :: rat where "q = of_int m * 2 powi E"
  have pE: "0 < (2::rat) powi E" by (rule powi_pos)
  have q0: "0 < q" unfolding q_def using assms(1) pE by simp
  have p0: "0 \<le> p" using assms(5) by simp
  have "(of_int m :: rat) < of_int (2 ^ nat p)" using assms(2) by (simp only: of_int_less_iff)
  also have "\<dots> = 2 powi p" using p0 by (simp add: powi_nat)
  finally have "q < 2 powi p * 2 powi E" unfolding q_def using pE by simp
  then have qlt: "q < 2 powi (p + E)" by (simp only: powi_add)
  have "2 powi ilog2 q \<le> q" using q0 by (rule ilog2_bounds)
  with qlt have "(2::rat) powi ilog2 q < 2 powi (p + E)" by linarith
  then have il: "ilog2 q < p + E" by (rule powi_less_imp)
  define e where "e = max (ilog2 q - (p - 1)) emin"
  have eE: "e \<le> E" using il assms(3) by (simp add: e_def)
  define m' where "m' = round_half_even (q / 2 powi e)"
  have "q / 2 powi e = of_int m * (2 powi E / 2 powi e)" by (simp add: q_def)
  also have "\<dots> = of_int m * 2 powi (E - e)" by (simp only: powi_diff)
  also have "\<dots> = of_int (m * 2 ^ nat (E - e))" using eE by (simp add: powi_nat)
  finally have div: "q / 2 powi e = of_int (m * 2 ^ nat (E - e))" .
  have m': "m' = m * 2 ^ nat (E - e)" unfolding m'_def div by (rule rhe_of_int)
  have val: "of_int m' * (2::rat) powi e = q"
  proof -
    have "of_int m' * (2::rat) powi e = of_int m * (2 powi (E - e) * 2 powi e)"
      using eE by (simp add: m' powi_nat)
    also have "\<dots> = of_int m * 2 powi (E - e + e)" by (simp only: powi_add)
    finally show ?thesis by (simp add: q_def)
  qed
  have "q < 2 powi emax" using qlt powi_mono[OF assms(4)] by linarith
  then have "of_int m' * (2::rat) powi e < 2 powi emax" by (simp only: val)
  from round_to_pos_eq[OF q0 e_def m'_def this] show ?thesis by (simp only: val q_def)
qed

lemma round_double_le_pow2:
  assumes "0 \<le> q" "q \<le> 2 powi k" "- 1074 \<le> k" "k \<le> 1023"
  shows "\<exists>r. round_double q = Fin r \<and> 0 \<le> r \<and> r \<le> 2 powi k"
proof (cases "q = 0")
  case True
  have "0 \<le> (2::rat) powi k" using powi_pos[of k] by simp
  then show ?thesis using True by (simp add: round_double_def)
next
  case False
  with assms(1) have "0 < q" by simp
  moreover have "k < 1024" using assms(4) by simp
  ultimately show ?thesis
    unfolding round_double_def using assms(2,3) by (intro round_to_le_pow2) simp_all
qed

lemma round_double_finite:
  assumes "0 \<le> q" "q < 2 powi 1024 - 2 powi 970"
  shows "\<exists>r. round_double q = Fin r \<and> 0 \<le> r \<and> r \<le> 2 powi 1024 - 2 powi 971"
  using round_to_finite[of q 1024 53 "- 1074"] assms unfolding round_double_def by simp

lemma round_double_overflow:
  assumes "2 powi 1024 - 2 powi 970 \<le> q"
  shows "round_double q = PInf"
  using round_to_overflow[of 1024 53 q "- 1074"] assms unfolding round_double_def by simp

lemma nearest_double_bounds:
  assumes "0 \<le> q" "q \<le> 2 powi k" "- 1074 \<le> k" "k \<le> 1023"
  shows "0 \<le> nearest_double q \<and> nearest_double q \<le> 2 powi k"
  using round_double_le_pow2[OF assms] by (auto simp: nearest_double_def)




section \<open>The cost calculator\<close>

lemma cost_per_gb_bounds: "0 \<le> cost_per_gb c \<and> cost_per_gb c \<le> 2 powi (- 5)"
proof -
  have b: "0 \<le> nearest_double q \<and> nearest_double q \<le> 2 powi (- 5)"
    if "0 \<le> q" "q \<le> 2 powi (- 5)" for q
    using that by (intro nearest_double_bounds) simp_all
  have "0 \<le> nearest_double (23 / 1000) \<and> nearest_double (23 / 1000) \<le> 2 powi (- 5)"
       "0 \<le> nearest_double (125 / 10000) \<and> nearest_double (125 / 10000) \<le> 2 powi (- 5)"
       "0 \<le> nearest_double (1 / 100) \<and> nearest_double (1 / 100) \<le> 2 powi (- 5)"
       "0 \<le> nearest_double (4 / 1000) \<and> nearest_double (4 / 1000) \<le> 2 powi (- 5)"
       "0 \<le> nearest_double (99 / 100000) \<and> nearest_double (99 / 100000) \<le> 2 powi (- 5)"
    by (rule b; simp)+
  moreover have "(0::rat) \<le> 2 powi (- 5)" by simp
  ultimately show ?thesis
    unfolding cost_per_gb_def STORAGE_CLASS_PRICING_def by simp
qed

lemma cost_per_gb_unknown:
  assumes "c \<notin> fst ` set STORAGE_CLASS_PRICING"
  shows "cost_per_gb c = 0"
proof -
  have "map_of STORAGE_CLASS_PRICING c = None" using assms by (simp add: map_of_eq_None_iff)
  then show ?thesis by (simp add: cost_per_gb_def)
qed

lemma gib_powi: "(of_int (1024 ^ 3) :: rat) = 2 powi 30"
  by simp

lemma int_truediv_ok:
  assumes "0 \<le> n" "n < 2 ^ 1054 - 2 ^ 1000"
  shows "\<exists>gb. int_truediv n (1024 ^ 3) = Inr gb \<and> 0 \<le> gb \<and> gb \<le> 2 powi 1024 - 2 powi 971"
proof -
  have "(of_int n :: rat) < of_int (2 ^ 1054 - 2 ^ 1000)" using assms(2) by (simp only: of_int_less_iff)
  also have "\<dots> = 2 powi (1024 + 30) - 2 powi (970 + 30)" by simp
  also have "\<dots> = (2 powi 1024 - 2 powi 970) * 2 powi 30"
    by (simp only: powi_add) (simp only: algebra_simps)
  finally have "of_int n / 2 powi 30 < (2 powi 1024 - 2 powi 970 :: rat)"
    using powi_pos[of 30] by (simp only: pos_divide_less_eq)
  moreover have "0 \<le> (of_int n :: rat) / 2 powi 30" using assms(1) powi_pos[of 30] by simp
  ultimately obtain r where "round_double (of_int n / 2 powi 30) = Fin r" "0 \<le> r"
      "r \<le> 2 powi 1024 - 2 powi 971"
    using round_double_finite by blast
  then show ?thesis unfolding int_truediv_def gib_powi by simp
qed

lemma int_truediv_overflow:
  assumes "2 ^ 1054 - 2 ^ 1000 \<le> n"
  shows "int_truediv n (1024 ^ 3) = Inl OverflowError"
proof -
  have "(2 powi 1024 - 2 powi 970) * 2 powi 30 = (2::rat) powi (1024 + 30) - 2 powi (970 + 30)"
    by (simp only: powi_add) (simp only: algebra_simps)
  also have "\<dots> = of_int (2 ^ 1054 - 2 ^ 1000)" by simp
  also have "\<dots> \<le> of_int n" using assms by (simp only: of_int_le_iff)
  finally have "(2 powi 1024 - 2 powi 970 :: rat) \<le> of_int n / 2 powi 30"
    using powi_pos[of 30] by (simp only: pos_le_divide_eq)
  then have "round_double (of_int n / 2 powi 30) = PInf" by (rule round_double_overflow)
  then show ?thesis unfolding int_truediv_def gib_powi by simp
qed

lemma int_truediv_924: "int_truediv 924 (1024 ^ 3) = Inr (924 / 2 ^ 30)"
proof -
  have "round_to 53 (- 1074) 1024 (of_int 231 * 2 powi (- 28)) = Fin (of_int 231 * 2 powi (- 28))"
    by (rule round_to_exact) simp_all
  moreover have "(of_int 231 :: rat) * 2 powi (- 28) = 924 / 2 ^ 30" by simp
  moreover have "(of_int 924 :: rat) / of_int (1024 ^ 3) = 924 / 2 ^ 30" by simp
  ultimately show ?thesis unfolding int_truediv_def round_double_def by simp
qed

lemma float_mul_bounds:
  assumes "0 \<le> p" "p \<le> 2 powi a" "0 \<le> g" "g \<le> 2 powi b" "- 1074 \<le> a + b" "a + b \<le> 1023"
  shows "\<exists>x. float_mul (Fin p) (Fin g) = Fin x \<and> 0 \<le> x \<and> x \<le> 2 powi (a + b)"
proof -
  have "p * g \<le> 2 powi a * 2 powi b" using assms(1-4) by (intro mult_mono) simp_all
  then have "p * g \<le> 2 powi (a + b)" by (simp only: powi_add)
  moreover have "0 \<le> p * g" using assms(1,3) by simp
  ultimately show ?thesis unfolding float_mul.simps using assms(5,6) by (intro round_double_le_pow2)
qed

lemma py_round2_ok:
  assumes "0 \<le> x" "x \<le> 2 powi k" "0 \<le> k" "k \<le> 1023"
  shows "\<exists>y. py_round2 (Fin x) = Inr (Fin y) \<and> 0 \<le> y"
proof -
  define m where "m = round_half_even (x * 100)"
  have "(of_int 0 :: rat) \<le> x * 100" using assms(1) by simp
  then have m0: "0 \<le> m" unfolding m_def by (rule rhe_ge)
  have "x * 100 \<le> 2 powi k * 100" using assms(2) by simp
  also have "\<dots> = of_int (2 ^ nat k * 100)" using assms(3) by (simp add: powi_nat)
  finally have "m \<le> 2 ^ nat k * 100" unfolding m_def by (rule rhe_le)
  then have "(of_int m :: rat) \<le> of_int (2 ^ nat k * 100)" by (simp only: of_int_le_iff)
  also have "\<dots> = 2 powi k * 100" using assms(3) by (simp add: powi_nat)
  finally have "of_int m / 100 \<le> (2::rat) powi k" by simp
  moreover have "0 \<le> (of_int m :: rat) / 100" using m0 by simp
  moreover have "- 1074 \<le> k" using assms(3) by simp
  ultimately obtain r where "round_double (of_int m / 100) = Fin r" "0 \<le> r"
    using round_double_le_pow2[of "of_int m / 100" k] assms(4) by blast
  then show ?thesis unfolding py_round2_def m_def by simp
qed

lemma rhe_small: "0 \<le> r \<Longrightarrow> r < 1 / 2 \<Longrightarrow> round_half_even r = 0"
proof -
  assume a: "0 \<le> r" "r < 1 / 2"
  then have "\<lfloor>r\<rfloor> = 0" by (simp add: floor_eq_iff)
  then show ?thesis using a by (simp add: round_half_even_def)
qed

lemma py_round2_small:
  assumes "0 \<le> x" "x < 1 / 200"
  shows "py_round2 (Fin x) = Inr (Fin 0)"
proof -
  have "round_half_even (x * 100) = 0" using assms by (intro rhe_small) simp_all
  then show ?thesis by (simp add: py_round2_def round_double_def)
qed

lemma class_cost_ok:
  assumes "0 \<le> n" "n < 2 ^ 1054 - 2 ^ 1000"
  shows "\<exists>gb y. int_truediv n (1024 ^ 3) = Inr gb \<and>
            py_round2 (float_mul (Fin (cost_per_gb c)) (Fin gb)) = Inr (Fin y) \<and> 0 \<le> y \<and>
            class_cost c n = Inr (Fin y)"
proof -
  from int_truediv_ok[OF assms] obtain gb where gb: "int_truediv n (1024 ^ 3) = Inr gb"
    "0 \<le> gb" "gb \<le> 2 powi 1024 - 2 powi 971" by blast
  have "0 < (2::rat) powi 971" by (rule powi_pos)
  with gb(3) have gb1024: "gb \<le> 2 powi 1024" by linarith
  from cost_per_gb_bounds[of c] have p: "0 \<le> cost_per_gb c" "cost_per_gb c \<le> 2 powi (- 5)" by auto
  from float_mul_bounds[OF p gb(2) gb1024] obtain x
    where x: "float_mul (Fin (cost_per_gb c)) (Fin gb) = Fin x" "0 \<le> x" "x \<le> 2 powi (- 5 + 1024)" by auto
  from py_round2_ok[OF x(2,3)] obtain y where y: "py_round2 (Fin x) = Inr (Fin y)" "0 \<le> y" by auto
  show ?thesis using gb(1) x(1) y by (simp add: class_cost_def)
qed

lemma class_cost_unknown:
  assumes "c \<notin> fst ` set STORAGE_CLASS_PRICING" "0 \<le> n" "n < 2 ^ 1054 - 2 ^ 1000"
  shows "class_cost c n = Inr (Fin 0)"
proof -
  from int_truediv_ok[OF assms(2,3)] obtain gb where gb: "int_truediv n (1024 ^ 3) = Inr gb" by blast
  have "float_mul (Fin (cost_per_gb c)) (Fin gb) = Fin 0"
    by (simp add: cost_per_gb_unknown[OF assms(1)] round_double_def)
  then show ?thesis using gb by (simp add: class_cost_def py_round2_small)
qed

lemma class_cost_overflow:
  assumes "2 ^ 1054 - 2 ^ 1000 \<le> n"
  shows "class_cost c n = Inl OverflowError"
  unfolding class_cost_def int_truediv_overflow[OF assms] by simp

lemma class_cost_small:
  assumes "0 \<le> n" "n \<le> 2 ^ 20"
  shows "class_cost c n = Inr (Fin 0)"
proof -
  have "(of_int n :: rat) \<le> of_int (2 ^ 20)" using assms(2) by (simp only: of_int_le_iff)
  then have "(of_int n :: rat) / 2 powi 30 \<le> 2 powi 20 / 2 powi 30"
    by (simp add: divide_right_mono)
  also have "\<dots> = 2 powi (- 10)" by simp
  finally have q: "(of_int n :: rat) / 2 powi 30 \<le> 2 powi (- 10)" .
  have q0: "0 \<le> (of_int n :: rat) / 2 powi 30" using assms(1) by simp
  from round_double_le_pow2[OF q0 q] obtain gb
    where r: "round_double (of_int n / 2 powi 30) = Fin gb" and gb: "0 \<le> gb" "gb \<le> 2 powi (- 10)"
    by auto
  have d: "int_truediv n (1024 ^ 3) = Inr gb" unfolding int_truediv_def gib_powi using r by simp
  from cost_per_gb_bounds[of c] have p: "0 \<le> cost_per_gb c" "cost_per_gb c \<le> 2 powi (- 5)" by auto
  from float_mul_bounds[OF p gb] obtain x
    where x: "float_mul (Fin (cost_per_gb c)) (Fin gb) = Fin x" "0 \<le> x" "x \<le> 2 powi (- 5 + - 10)" by auto
  have "(2::rat) powi (- 5 + - 10) < 1 / 200" by simp
  with x(3) have "x < 1 / 200" by linarith
  with x(2) have "py_round2 (Fin x) = Inr (Fin 0)" by (rule py_round2_small)
  then show ?thesis using d x(1) by (simp add: class_cost_def)
qed

lemma calculate_cost_fold:
  assumes "\<forall>(c, n) \<in> set d. class_cost c n = Inr (f c n)"
    and "distinct (map fst d)" and "fst ` set d \<inter> fst ` set acc = {}"
  shows "fold (\<lambda>(storage_class, size) acc.
             case acc of
               Inl err \<Rightarrow> Inl err
             | Inr storage_class_cost \<Rightarrow>
                 (case class_cost storage_class size of
                    Inl err \<Rightarrow> Inl err
                  | Inr cost \<Rightarrow> Inr (dict_set storage_class cost storage_class_cost)))
       d (Inr acc) = Inr (acc @ map (\<lambda>(c, n). (c, f c n)) d)"
  using assms
proof (induction d arbitrary: acc)
  case Nil
  then show ?case by simp
next
  case (Cons a d)
  obtain c n where a: "a = (c, n)" by (cases a)
  from Cons.prems have cc: "class_cost c n = Inr (f c n)"
    and rest: "\<forall>(c, n) \<in> set d. class_cost c n = Inr (f c n)"
    and dd: "distinct (map fst d)" and cd: "c \<notin> fst ` set d" and ca: "c \<notin> fst ` set acc"
    and disj: "fst ` set d \<inter> fst ` set acc = {}"
    by (auto simp: a)
  have set: "dict_set c (f c n) acc = acc @ [(c, f c n)]"
    unfolding dict_set_def using ca by (rule dict_upd_append_new)
  have "fst ` set d \<inter> fst ` set (acc @ [(c, f c n)]) = {}" using disj cd by auto
  from Cons.IH[OF rest dd this] show ?case by (simp add: a cc set)
qed

lemma calculate_cost_map:
  assumes "\<forall>(c, n) \<in> set d. class_cost c n = Inr (f c n)" and "distinct (map fst d)"
  shows "calculate_cost d = Inr (map (\<lambda>(c, n). (c, f c n)) d)"
  unfolding calculate_cost_def using calculate_cost_fold[OF assms, of "[]"] by simp

lemma map_of_map_keyed:
  "map_of (map (\<lambda>(c, n). (c, g c n)) d) c = map_option (g c) (map_of d c)"
  by (induction d) auto

lemma fold_cost_Inl:
  "fold (\<lambda>(storage_class, size) acc.
             case acc of
               Inl err \<Rightarrow> Inl err
             | Inr storage_class_cost \<Rightarrow>
                 (case class_cost storage_class size of
                    Inl err \<Rightarrow> Inl err
                  | Inr cost \<Rightarrow> Inr (dict_set storage_class cost storage_class_cost)))
       d (Inl e) = Inl e"
  by (induction d) auto

lemma calculate_cost_first_overflow:
  assumes "2 ^ 1054 - 2 ^ 1000 \<le> n"
  shows "calculate_cost ((c, n) # d) = Inl OverflowError"
  unfolding calculate_cost_def by (simp add: class_cost_overflow[OF assms] fold_cost_Inl)

lemma int_truediv_gib_error:
  assumes "int_truediv n (1024 ^ 3) = Inl e"
  shows "e = OverflowError"
  using assms unfolding int_truediv_def by (auto split: pyfloat.splits)

lemma py_round2_error:
  assumes "py_round2 x = Inl e"
  shows "e = OverflowError"
  using assms unfolding py_round2_def by (auto split: pyfloat.splits)

lemma class_cost_error:
  assumes "class_cost c n = Inl e"
  shows "e = OverflowError"
proof (cases "int_truediv n (1024 ^ 3)")
  case (Inl err)
  then have "err = OverflowError" by (rule int_truediv_gib_error)
  with Inl assms show ?thesis by (simp add: class_cost_def)
next
  case (Inr gb)
  with assms have "py_round2 (float_mul (Fin (cost_per_gb c)) (Fin gb)) = Inl e"
    by (simp add: class_cost_def)
  then show ?thesis by (rule py_round2_error)
qed

lemma fold_cost_overflow:
  assumes "(c, n) \<in> set d" "2 ^ 1054 - 2 ^ 1000 \<le> n"
  shows "fold (\<lambda>(storage_class, size) acc.
             case acc of
               Inl err \<Rightarrow> Inl err
             | Inr storage_class_cost \<Rightarrow>
                 (case class_cost storage_class size of
                    Inl err \<Rightarrow> Inl err
                  | Inr cost \<Rightarrow> Inr (dict_set storage_class cost storage_class_cost)))
       d (Inr acc) = Inl OverflowError"
  using assms(1)
proof (induction d arbitrary: acc)
  case Nil
  then show ?case by simp
next
  case (Cons a d)
  obtain c' n' where a: "a = (c', n')" by (cases a)
  show ?case
  proof (cases "class_cost c' n'")
    case (Inl e)
    then have "e = OverflowError" by (rule class_cost_error)
    with Inl show ?thesis by (simp add: a fold_cost_Inl)
  next
    case (Inr cost)
    have "a \<noteq> (c, n)" using Inr class_cost_overflow[OF assms(2), of c] by (auto simp: a)
    with Cons.prems have "(c, n) \<in> set d" by simp
    from Cons.IH[OF this] show ?thesis by (simp add: a Inr)
  qed
qed

lemma calculate_cost_any_overflow:
  assumes "(c, n) \<in> set d" "2 ^ 1054 - 2 ^ 1000 \<le> n"
  shows "calculate_cost d = Inl OverflowError"
  unfolding calculate_cost_def using assms by (rule fold_cost_overflow)

text \<open>
  C6 as the claim states it fails: Python integers are unbounded, and a byte count of
  \<open>2 ^ 1054\<close> makes \<^verbatim>\<open>size / (1024**3)\<close> raise \<^verbatim>\<open>OverflowError\<close>, whatever the class.
\<close>

theorem calculate_cost_overflow_counterexample:
  "calculate_cost [(''STANDARD'', 2 ^ 1054)] = Inl OverflowError"
proof -
  have "(2::int) ^ 1054 - 2 ^ 1000 \<le> 2 ^ 1054" by simp
  then show ?thesis by (rule calculate_cost_first_overflow)
qed

text \<open>
  C6, amended.  For a dictionary whose byte counts are non-negative and below
  \<open>2 ^ 1054 - 2 ^ 1000\<close>, whatever its class names, \<^verbatim>\<open>calculate_cost\<close> returns a dictionary
  with the same keys in the same order, in which every class has the cost
  \<^verbatim>\<open>round(cost_per_gb * (size / 1024**3), 2)\<close> in float arithmetic, a finite non-negative
  float, and a class that is not in the pricing table has the price 0 and the cost 0.0.
  The bound is exact: a dictionary in which any class, at any position, has a byte count
  of \<open>2 ^ 1054 - 2 ^ 1000\<close> or more makes \<^verbatim>\<open>calculate_cost\<close> raise \<^verbatim>\<open>OverflowError\<close>.
\<close>

theorem calculate_cost_total_below_float_range:
  assumes "distinct (map fst storage_class_data)"
    and "\<forall>(c, n) \<in> set storage_class_data. 0 \<le> n \<and> n < 2 ^ 1054 - 2 ^ 1000"
  shows "(\<exists>costs. calculate_cost storage_class_data = Inr costs \<and>
           map fst costs = map fst storage_class_data \<and>
           (\<forall>(c, n) \<in> set storage_class_data.
              \<exists>gb y. int_truediv n (1024 ^ 3) = Inr gb \<and>
                     py_round2 (float_mul (Fin (cost_per_gb c)) (Fin gb)) = Inr (Fin y) \<and> 0 \<le> y \<and>
                     map_of costs c = Some (Fin y) \<and>
                     (c \<notin> fst ` set STORAGE_CLASS_PRICING \<longrightarrow> cost_per_gb c = 0 \<and> y = 0))) \<and>
         (\<forall>c n d. (c, n) \<in> set d \<and> 2 ^ 1054 - 2 ^ 1000 \<le> n \<longrightarrow>
            calculate_cost d = Inl OverflowError)"
proof -
  let ?costs = "map (\<lambda>(c, n). (c, the_cost c n)) storage_class_data"
  have ok: "\<forall>(c, n) \<in> set storage_class_data. class_cost c n = Inr (the_cost c n)"
  proof (clarify)
    fix c n assume "(c, n) \<in> set storage_class_data"
    with assms(2) have "0 \<le> n" "n < 2 ^ 1054 - 2 ^ 1000" by auto
    from class_cost_ok[OF this, of c] show "class_cost c n = Inr (the_cost c n)"
      by (auto simp: the_cost_def)
  qed
  have r: "calculate_cost storage_class_data = Inr ?costs"
    using ok assms(1) by (rule calculate_cost_map)
  have keys: "map fst ?costs = map fst storage_class_data" by (simp add: comp_def case_prod_unfold)
  have each: "\<exists>gb y. int_truediv n (1024 ^ 3) = Inr gb \<and>
                     py_round2 (float_mul (Fin (cost_per_gb c)) (Fin gb)) = Inr (Fin y) \<and> 0 \<le> y \<and>
                     map_of ?costs c = Some (Fin y) \<and>
                     (c \<notin> fst ` set STORAGE_CLASS_PRICING \<longrightarrow> cost_per_gb c = 0 \<and> y = 0)"
    if mem: "(c, n) \<in> set storage_class_data" for c n
  proof -
    from mem assms(2) have n: "0 \<le> n" "n < 2 ^ 1054 - 2 ^ 1000" by auto
    from class_cost_ok[OF n, of c] obtain gb y where g: "int_truediv n (1024 ^ 3) = Inr gb"
      "py_round2 (float_mul (Fin (cost_per_gb c)) (Fin gb)) = Inr (Fin y)" "0 \<le> y"
      "class_cost c n = Inr (Fin y)"
      by blast
    have "map_of storage_class_data c = Some n" using mem assms(1) by simp
    then have "map_of ?costs c = Some (the_cost c n)"
      by (simp add: map_of_map_keyed)
    then have m: "map_of ?costs c = Some (Fin y)" by (simp add: the_cost_def g(4))
    have u: "cost_per_gb c = 0 \<and> y = 0" if "c \<notin> fst ` set STORAGE_CLASS_PRICING"
      using class_cost_unknown[OF that n] cost_per_gb_unknown[OF that] g(4) by simp
    show ?thesis using g(1,2,3) m u by blast
  qed
  have first: "\<exists>costs. calculate_cost storage_class_data = Inr costs \<and>
           map fst costs = map fst storage_class_data \<and>
           (\<forall>(c, n) \<in> set storage_class_data.
              \<exists>gb y. int_truediv n (1024 ^ 3) = Inr gb \<and>
                     py_round2 (float_mul (Fin (cost_per_gb c)) (Fin gb)) = Inr (Fin y) \<and> 0 \<le> y \<and>
                     map_of costs c = Some (Fin y) \<and>
                     (c \<notin> fst ` set STORAGE_CLASS_PRICING \<longrightarrow> cost_per_gb c = 0 \<and> y = 0))"
    using r keys each by blast
  have second: "\<forall>c n d. (c, n) \<in> set d \<and> 2 ^ 1054 - 2 ^ 1000 \<le> n \<longrightarrow>
      calculate_cost d = Inl OverflowError"
    using calculate_cost_any_overflow by blast
  from first second show ?thesis ..
qed

theorem calculate_cost_total_witness:
  "distinct (map fst cost_example) \<and>
   (\<exists>costs. calculate_cost cost_example = Inr costs \<and>
      map fst costs = [''STANDARD'', ''UNKNOWN''] \<and>
      map_of costs ''UNKNOWN'' = Some (Fin 0)) \<and>
   calculate_cost [(''GLACIER'', 924), (''STANDARD'', 2 ^ 1054 - 2 ^ 1000), (''UNKNOWN'', 1)] =
     Inl OverflowError"
proof -
  have d: "distinct (map fst cost_example)" by (simp add: cost_example_def)
  have b: "\<forall>(c, n) \<in> set cost_example. 0 \<le> n \<and> n < 2 ^ 1054 - 2 ^ 1000"
    by (simp add: cost_example_def)
  have u: "''UNKNOWN'' \<notin> fst ` set STORAGE_CLASS_PRICING" by (simp add: STORAGE_CLASS_PRICING_def)
  have mem: "(''UNKNOWN'', 2 ^ 40) \<in> set cost_example" by (simp add: cost_example_def)
  note t = calculate_cost_total_below_float_range[OF d b]
  from t obtain costs
    where c: "calculate_cost cost_example = Inr costs" "map fst costs = map fst cost_example"
      and e: "\<forall>(c, n) \<in> set cost_example.
              \<exists>gb y. int_truediv n (1024 ^ 3) = Inr gb \<and>
                     py_round2 (float_mul (Fin (cost_per_gb c)) (Fin gb)) = Inr (Fin y) \<and> 0 \<le> y \<and>
                     map_of costs c = Some (Fin y) \<and>
                     (c \<notin> fst ` set STORAGE_CLASS_PRICING \<longrightarrow> cost_per_gb c = 0 \<and> y = 0)"
    by blast
  from t have o: "\<forall>c n d. (c, n) \<in> set d \<and> 2 ^ 1054 - 2 ^ 1000 \<le> n \<longrightarrow>
      calculate_cost d = Inl OverflowError" ..
  have m2: "(''STANDARD'', 2 ^ 1054 - 2 ^ 1000) \<in>
      set [(''GLACIER'', 924), (''STANDARD'', 2 ^ 1054 - 2 ^ 1000), (''UNKNOWN'', 1)]" by simp
  have "(2::int) ^ 1054 - 2 ^ 1000 \<le> 2 ^ 1054 - 2 ^ 1000" by simp
  with o m2 have over: "calculate_cost [(''GLACIER'', 924), (''STANDARD'', 2 ^ 1054 - 2 ^ 1000),
      (''UNKNOWN'', 1)] = Inl OverflowError" by blast
  from bspec[OF e mem] u have "map_of costs ''UNKNOWN'' = Some (Fin 0)" by auto
  moreover have "map fst cost_example = [''STANDARD'', ''UNKNOWN'']" by (simp add: cost_example_def)
  ultimately show ?thesis using d c over by auto
qed

text \<open>
  C3.  On the three objects of the scenario the aggregator returns the global totals
  \<open>STANDARD: 1124, GLACIER: 924\<close>, the prefix \<open>a/\<close> with \<open>STANDARD: 100, GLACIER: 924\<close>
  and total 1024, and the prefix \<open>b/\<close> with \<open>STANDARD: 1024\<close> and total 1024.  The price of
  \<open>GLACIER\<close> is the literal 0.004, \<open>924 / 1024**3\<close> is exact, their product rounded to two
  decimals is 0.0, and \<^verbatim>\<open>calculate_cost\<close> of the per-class bytes of \<open>a/\<close> is 0.0 for both
  classes.
\<close>

theorem end_to_end_scenario:
  "calculate_storage_class_data scenario_objects =
     ([(''STANDARD'', 1124), (''GLACIER'', 924)],
      [(''a/'', \<lparr>TotalSize = 1024, StorageClass = [(''STANDARD'', 100), (''GLACIER'', 924)]\<rparr>),
       (''b/'', \<lparr>TotalSize = 1024, StorageClass = [(''STANDARD'', 1024)]\<rparr>)]) \<and>
   cost_per_gb ''GLACIER'' = nearest_double (4 / 1000) \<and>
   int_truediv 924 (1024 ^ 3) = Inr (924 / 2 ^ 30) \<and>
   py_round2 (float_mul (Fin (nearest_double (4 / 1000))) (Fin (924 / 2 ^ 30))) = Inr (Fin 0) \<and>
   calculate_cost [(''STANDARD'', 100), (''GLACIER'', 924)] =
     Inr [(''STANDARD'', Fin 0), (''GLACIER'', Fin 0)]"
proof -
  have p: "cost_per_gb ''GLACIER'' = nearest_double (4 / 1000)"
    by (simp add: cost_per_gb_def STORAGE_CLASS_PRICING_def)
  have g: "class_cost ''GLACIER'' 924 = Inr (Fin 0)" by (rule class_cost_small) simp_all
  have s: "class_cost ''STANDARD'' 100 = Inr (Fin 0)" by (rule class_cost_small) simp_all
  have r: "py_round2 (float_mul (Fin (nearest_double (4 / 1000))) (Fin (924 / 2 ^ 30))) = Inr (Fin 0)"
    using g unfolding class_cost_def int_truediv_924 p by simp
  have c: "calculate_cost [(''STANDARD'', 100), (''GLACIER'', 924)] =
     Inr [(''STANDARD'', Fin 0), (''GLACIER'', Fin 0)]"
    unfolding calculate_cost_def by (simp add: g s dict_set_def)
  show ?thesis using scenario_result p int_truediv_924 r c by blast
qed

section \<open>The size formatter\<close>



lemma and_then_Inl [simp]: "and_then (Inl e) f = Inl e"
  by (simp add: and_then_def)




















lemma int_to_float_of_round:
  "round_double (of_int n) = Fin x \<Longrightarrow> int_to_float n = Inr x \<and> nearest_double (of_int n) = x"
  by (simp add: int_to_float_def nearest_double_def)


















end
